theory Spec2Isabelle
  imports
    Main
    "HOL-Library.Char_ord"
    "HOL-Library.List_Lexorder"
    "HOL-Library.Product_Lexorder"
    "HOL-Library.AList"
    "HOL-Library.Extended_Nat"
begin

section \<open>Core domain types (packages/core/src/types.ts)\<close>

text \<open>
  JavaScript strings are modelled as \<^typ>\<open>string\<close>; the relational operators of
  JavaScript on strings compare code units lexicographically, which is the order that
  \<open>Char_ord\<close> and \<open>List_Lexorder\<close> give to \<^typ>\<open>string\<close>. Version counters are
  JavaScript numbers holding small integers and are modelled as \<^typ>\<open>int\<close>.
\<close>

datatype TodoState = TODO | ONGOING | DONE

record Todo =
  todoId :: string
  listId :: string
  title :: string
  state :: TodoState
  createdBy :: string
  createdAt :: string
  updatedAt :: string
  version :: int
  deletedAt :: "string option"

record TodoList =
  list_id :: string
  joinKey :: string
  list_createdAt :: string

section \<open>State machine (packages/core/src/todo-state-machine.ts)\<close>

fun ALLOWED_NEXT_STATES :: "TodoState \<Rightarrow> TodoState list" where
  "ALLOWED_NEXT_STATES TODO = [ONGOING]"
| "ALLOWED_NEXT_STATES ONGOING = [TODO, DONE]"
| "ALLOWED_NEXT_STATES DONE = [ONGOING]"

definition isValidTransition :: "TodoState \<Rightarrow> TodoState \<Rightarrow> bool" where
  "isValidTransition from to = (to \<in> set (ALLOWED_NEXT_STATES from))"

definition getAllowedNextStates :: "TodoState \<Rightarrow> TodoState list" where
  "getAllowedNextStates s = ALLOWED_NEXT_STATES s"

section \<open>Server entity store (apps/server/src/store.ts)\<close>

text \<open>
  The store keeps \<open>todos\<close>, a map from todo id to todo, and the secondary index
  \<open>todosByList\<close>, a map from list id to a JavaScript \<open>Set\<close> of todo ids. A \<open>Set\<close>
  iterates in insertion order, so the index holds a list without duplicates.
\<close>

record Store =
  lists :: "string \<rightharpoonup> TodoList"
  todos :: "string \<rightharpoonup> Todo"
  todosByList :: "string \<rightharpoonup> string list"

definition emptyStore :: Store where
  "emptyStore = \<lparr>lists = Map.empty, todos = Map.empty, todosByList = Map.empty\<rparr>"

definition listExists :: "Store \<Rightarrow> string \<Rightarrow> bool" where
  "listExists s l = (lists s l \<noteq> None)"

definition createList :: "Store \<Rightarrow> TodoList \<Rightarrow> Store" where
  "createList s l = s\<lparr>lists := (lists s)(list_id l \<mapsto> l)\<rparr>"

definition getTodo :: "Store \<Rightarrow> string \<Rightarrow> Todo option" where
  "getTodo s i = todos s i"

text \<open>\<open>Set.add\<close>: a member keeps its place, a new id goes to the end.\<close>

definition set_add :: "string \<Rightarrow> string list \<Rightarrow> string list" where
  "set_add i ids = (if i \<in> set ids then ids else ids @ [i])"

definition createTodo :: "Store \<Rightarrow> Todo \<Rightarrow> Store" where
  "createTodo s t =
     s\<lparr>todos := (todos s)(todoId t \<mapsto> t),
       todosByList := (todosByList s)(listId t \<mapsto>
          set_add (todoId t) (case todosByList s (listId t) of None \<Rightarrow> [] | Some ids \<Rightarrow> ids))\<rparr>"

subsection \<open>Compare-and-swap\<close>

text \<open>
  The \<open>updates\<close> argument has type
  \<open>Partial<Omit<Todo, 'id' | 'listId' | 'createdBy' | 'createdAt'>>\<close>: each of the
  remaining fields may be present or absent. \<open>deletedAt\<close> is optional in \<open>Todo\<close>
  itself, so a present key may carry \<open>undefined\<close>.
\<close>

record TodoUpdates =
  u_title :: "string option"
  u_state :: "TodoState option"
  u_updatedAt :: "string option"
  u_version :: "int option"
  u_deletedAt :: "string option option"

text \<open>\<open>Object.assign(todo, updates)\<close>: every present key overwrites the field.\<close>

definition object_assign :: "Todo \<Rightarrow> TodoUpdates \<Rightarrow> Todo" where
  "object_assign t u =
     t\<lparr>title := (case u_title u of None \<Rightarrow> title t | Some x \<Rightarrow> x),
       state := (case u_state u of None \<Rightarrow> state t | Some x \<Rightarrow> x),
       updatedAt := (case u_updatedAt u of None \<Rightarrow> updatedAt t | Some x \<Rightarrow> x),
       version := (case u_version u of None \<Rightarrow> version t | Some x \<Rightarrow> x),
       deletedAt := (case u_deletedAt u of None \<Rightarrow> deletedAt t | Some x \<Rightarrow> x)\<rparr>"

datatype CompareAndSwapResult = Success Todo | Conflict Todo | NotFound

text \<open>
  The stored object is mutated in place, so the map keeps it under the key that was
  looked up.
\<close>

definition compareAndSwapTodo ::
  "Store \<Rightarrow> string \<Rightarrow> int \<Rightarrow> TodoUpdates \<Rightarrow> CompareAndSwapResult \<times> Store" where
  "compareAndSwapTodo s i expectedVersion updates =
     (case todos s i of
        None \<Rightarrow> (NotFound, s)
      | Some todo \<Rightarrow>
          if version todo \<noteq> expectedVersion then (Conflict todo, s)
          else
            let todo' = (object_assign todo updates)\<lparr>version := expectedVersion + 1\<rparr>
            in (Success todo', s\<lparr>todos := (todos s)(i \<mapsto> todo')\<rparr>))"


section \<open>Monotonic timestamps (apps/server/src/utils/time.ts)\<close>

subsection \<open>The platform's \<open>Date.prototype.toISOString\<close>\<close>







definition digit :: "nat \<Rightarrow> char" where
  "digit n = char_of (48 + n)"

fun pad :: "nat \<Rightarrow> nat \<Rightarrow> string" where
  "pad 0 n = []"
| "pad (Suc w) n = pad w (n div 10) @ [digit (n mod 10)]"








subsection \<open>The generator\<close>




subsection \<open>Listing the todos of a list after a cursor\<close>

text \<open>
  \<open>isTodoAfterCursor\<close> receives a cursor whose two fields are both strings;
  \<open>getTodosForList\<close> receives an optional cursor whose fields are both optional.
\<close>

record Cursor =
  c_updatedAt :: string
  c_todoId :: string

record CursorArg =
  a_updatedAt :: "string option"
  a_todoId :: "string option"

definition isTodoAfterCursor :: "Todo \<Rightarrow> Cursor \<Rightarrow> bool" where
  "isTodoAfterCursor todo cursor =
     (if updatedAt todo > c_updatedAt cursor then True
      else if updatedAt todo = c_updatedAt cursor \<and> todoId todo > c_todoId cursor then True
      else False)"

text \<open>
  The loop body tests \<open>cursor?.updatedAt\<close> for truthiness: the cursor filters only
  when it is present and its \<open>updatedAt\<close> is a non-empty string. A missing
  \<open>todoId\<close> defaults to the empty string (\<open>cursor.todoId ?? ''\<close>).
\<close>

definition nullish_or :: "'a option \<Rightarrow> 'a \<Rightarrow> 'a" where
  "nullish_or v d = (case v of None \<Rightarrow> d | Some x \<Rightarrow> x)"

text \<open>
  \<open>passesCursor\<close> is the condition under which the loop body reaches
  \<open>result.push(todo)\<close>.
\<close>

definition passesCursor :: "CursorArg option \<Rightarrow> Todo \<Rightarrow> bool" where
  "passesCursor cursor todo =
     (case Option.bind cursor a_updatedAt of
        None \<Rightarrow> True
      | Some u \<Rightarrow>
          if u \<noteq> [] then
            isTodoAfterCursor todo
              \<lparr>c_updatedAt = u, c_todoId = nullish_or (Option.bind cursor a_todoId) []\<rparr>
          else True)"

fun collectTodos :: "Store \<Rightarrow> CursorArg option \<Rightarrow> string list \<Rightarrow> Todo list \<Rightarrow> Todo list" where
  "collectTodos s cursor [] result = result"
| "collectTodos s cursor (i # ids) result =
     (case todos s i of
        None \<Rightarrow> collectTodos s cursor ids result
      | Some todo \<Rightarrow>
          if \<not> passesCursor cursor todo then collectTodos s cursor ids result
          else collectTodos s cursor ids (result @ [todo]))"

text \<open>
  \<open>Array.prototype.sort\<close> with a comparator is a stable sort; it is modelled by a
  stable insertion sort that places \<open>x\<close> before the first \<open>y\<close> with
  \<open>cmp x y \<le> 0\<close>.
\<close>

fun insort_cmp :: "('a \<Rightarrow> 'a \<Rightarrow> int) \<Rightarrow> 'a \<Rightarrow> 'a list \<Rightarrow> 'a list" where
  "insort_cmp cmp x [] = [x]"
| "insort_cmp cmp x (y # ys) = (if cmp x y \<le> 0 then x # y # ys else y # insort_cmp cmp x ys)"

definition array_sort :: "('a \<Rightarrow> 'a \<Rightarrow> int) \<Rightarrow> 'a list \<Rightarrow> 'a list" where
  "array_sort cmp xs = foldr (insort_cmp cmp) xs []"

definition compareByUpdatedAt :: "Todo \<Rightarrow> Todo \<Rightarrow> int" where
  "compareByUpdatedAt a b =
     (if updatedAt a = updatedAt b then
        (if todoId a = todoId b then 0 else if todoId a < todoId b then -1 else 1)
      else if updatedAt a < updatedAt b then -1 else 1)"

definition getTodosForList :: "Store \<Rightarrow> string \<Rightarrow> CursorArg option \<Rightarrow> Todo list" where
  "getTodosForList s l cursor =
     (case todosByList s l of
        None \<Rightarrow> []
      | Some todoIds \<Rightarrow> array_sort compareByUpdatedAt (collectTodos s cursor todoIds []))"

text \<open>
  Consistency of the secondary index with the primary map: every todo is stored under
  its own id and indexed under its list, and every index entry is a set of ids of
  todos of that list. The routes keep it: they create a todo only under a fresh id.
\<close>

definition store_wf :: "Store \<Rightarrow> bool" where
  "store_wf s \<longleftrightarrow>
     (\<forall>i t. todos s i = Some t \<longrightarrow>
        todoId t = i \<and> (\<exists>ids. todosByList s (listId t) = Some ids \<and> i \<in> set ids)) \<and>
     (\<forall>l ids. todosByList s l = Some ids \<longrightarrow>
        distinct ids \<and> (\<forall>i \<in> set ids. \<exists>t. todos s i = Some t \<and> listId t = l))"

definition sortKey :: "Todo \<Rightarrow> string \<times> string" where
  "sortKey t = (updatedAt t, todoId t)"


section \<open>Client sync state (apps/web/src/lib/sync/state.ts)\<close>

text \<open>
  A pending mutation has the single variant \<open>state-change\<close>. The maps of the sync
  state are JavaScript \<open>Map\<close>s, which iterate in insertion order and keep the place
  of a key that is set again; they are association lists handled with \<open>map_of\<close>,
  \<open>AList.update\<close> and \<open>AList.delete\<close>.
\<close>

record PendingMutation =
  m_id :: string
  m_todoId :: string
  m_appliedAt :: string
  m_nextState :: TodoState

record SyncState =
  serverState :: "(string \<times> Todo) list"
  pendingMutations :: "(string \<times> PendingMutation list) list"
  activeRuns :: "string list"
  runGeneration :: nat

definition initialSyncState :: SyncState where
  "initialSyncState =
     \<lparr>serverState = [], pendingMutations = [], activeRuns = [], runGeneration = 0\<rparr>"

definition getServerTodo :: "SyncState \<Rightarrow> string \<Rightarrow> Todo option" where
  "getServerTodo st i = map_of (serverState st) i"

definition setServerTodo :: "SyncState \<Rightarrow> Todo \<Rightarrow> SyncState" where
  "setServerTodo st todo = st\<lparr>serverState := AList.update (todoId todo) todo (serverState st)\<rparr>"

definition getAllServerTodos :: "SyncState \<Rightarrow> Todo list" where
  "getAllServerTodos st = map snd (serverState st)"

definition getNextMutation :: "SyncState \<Rightarrow> string \<Rightarrow> PendingMutation option" where
  "getNextMutation st i =
     (case map_of (pendingMutations st) i of
        None \<Rightarrow> None
      | Some queue \<Rightarrow> (case queue of [] \<Rightarrow> None | m # _ \<Rightarrow> Some m))"

definition getAllPendingMutations :: "SyncState \<Rightarrow> string \<Rightarrow> PendingMutation list" where
  "getAllPendingMutations st i = nullish_or (map_of (pendingMutations st) i) []"

text \<open>
  \<open>enqueueMutation\<close> draws the mutation id from \<open>crypto.randomUUID()\<close> and the
  timestamp from the clock; both are arguments here.
\<close>

definition enqueueMutation ::
  "string \<Rightarrow> string \<Rightarrow> SyncState \<Rightarrow> string \<Rightarrow> TodoState \<Rightarrow> PendingMutation \<times> SyncState" where
  "enqueueMutation uuid now st i next =
     (let mutation = \<lparr>m_id = uuid, m_todoId = i, m_appliedAt = now, m_nextState = next\<rparr>
      in (mutation,
          st\<lparr>pendingMutations :=
               AList.update i (getAllPendingMutations st i @ [mutation]) (pendingMutations st)\<rparr>))"

definition dequeueMutation :: "SyncState \<Rightarrow> string \<Rightarrow> SyncState" where
  "dequeueMutation st i =
     (case map_of (pendingMutations st) i of
        None \<Rightarrow> st\<lparr>pendingMutations := AList.delete i (pendingMutations st)\<rparr>
      | Some queue \<Rightarrow>
          if queue = [] then st\<lparr>pendingMutations := AList.delete i (pendingMutations st)\<rparr>
          else if tl queue = [] then st\<lparr>pendingMutations := AList.delete i (pendingMutations st)\<rparr>
          else st\<lparr>pendingMutations := AList.update i (tl queue) (pendingMutations st)\<rparr>)"

definition cancelRunGeneration :: "SyncState \<Rightarrow> SyncState" where
  "cancelRunGeneration st = st\<lparr>runGeneration := runGeneration st + 1\<rparr>"

definition clearSyncState :: "SyncState \<Rightarrow> SyncState" where
  "clearSyncState st =
     (cancelRunGeneration st)\<lparr>serverState := [], pendingMutations := [], activeRuns := []\<rparr>"

section \<open>Merge algorithm (apps/web/src/lib/sync/merge.ts)\<close>

text \<open>
  \<open>Date.parse\<close> and \<open>new Date(string)\<close> belong to the platform. They enter as the
  parameter \<open>dp\<close>, which gives the time value of a string in milliseconds, or
  \<open>None\<close> where JavaScript gives \<open>NaN\<close>. Every comparison with \<open>NaN\<close> is false.
\<close>

type_synonym DateParse = "string \<Rightarrow> int option"

definition isOptimisticTodo :: "Todo \<Rightarrow> bool" where
  "isOptimisticTodo todo = (version todo = 0)"

definition date_ge :: "DateParse \<Rightarrow> string \<Rightarrow> string \<Rightarrow> bool" where
  "date_ge dp a b =
     (case (dp a, dp b) of (Some x, Some y) \<Rightarrow> x \<ge> y | _ \<Rightarrow> False)"

definition isNewerThan :: "DateParse \<Rightarrow> Todo \<Rightarrow> Todo option \<Rightarrow> bool" where
  "isNewerThan dp incoming existing =
     (case existing of
        None \<Rightarrow> True
      | Some e \<Rightarrow>
          if version incoming > version e then True
          else if version incoming = version e then date_ge dp (updatedAt incoming) (updatedAt e)
          else False)"

text \<open>
  \<open>preserveCreatedAt && todo.createdAt !== preserveCreatedAt\<close>: the first conjunct is
  a truthiness test, so an absent and an empty \<open>preserveCreatedAt\<close> both leave the
  todo as it came.
\<close>

definition todoToStore :: "Todo \<Rightarrow> string option \<Rightarrow> Todo" where
  "todoToStore todo preserveCreatedAt =
     (case preserveCreatedAt of
        None \<Rightarrow> todo
      | Some p \<Rightarrow> if p \<noteq> [] \<and> createdAt todo \<noteq> p then todo\<lparr>createdAt := p\<rparr> else todo)"

definition updateServerStateEntry ::
  "DateParse \<Rightarrow> SyncState \<Rightarrow> Todo \<Rightarrow> string option \<Rightarrow> SyncState" where
  "updateServerStateEntry dp st todo preserveCreatedAt =
     (let existing = getServerTodo st (todoId todo)
      in if isNewerThan dp (todoToStore todo preserveCreatedAt) existing
         then setServerTodo st (todoToStore todo preserveCreatedAt) else st)"

text \<open>The first loop of \<open>mergeTodos\<close>: a later optimistic todo overwrites an earlier one.\<close>

fun optimisticCreatedAtById :: "Todo list \<Rightarrow> (string \<rightharpoonup> string) \<Rightarrow> (string \<rightharpoonup> string)" where
  "optimisticCreatedAtById [] m = m"
| "optimisticCreatedAtById (todo # local) m =
     optimisticCreatedAtById local
       (if isOptimisticTodo todo then m(todoId todo \<mapsto> createdAt todo) else m)"

text \<open>
  The body of the second loop: \<open>existing?.createdAt ?? optimisticCreatedAtById.get(id)\<close>.
\<close>

definition mergeIncoming ::
  "DateParse \<Rightarrow> (string \<rightharpoonup> string) \<Rightarrow> SyncState \<Rightarrow> Todo \<Rightarrow> SyncState" where
  "mergeIncoming dp opt st incomingTodo =
     (let existing = getServerTodo st (todoId incomingTodo);
          preserveCreatedAt =
            (case existing of Some e \<Rightarrow> Some (createdAt e) | None \<Rightarrow> opt (todoId incomingTodo))
      in updateServerStateEntry dp st incomingTodo preserveCreatedAt)"

fun mergeServerState ::
  "DateParse \<Rightarrow> (string \<rightharpoonup> string) \<Rightarrow> SyncState \<Rightarrow> Todo list \<Rightarrow> SyncState" where
  "mergeServerState dp opt st [] = st"
| "mergeServerState dp opt st (incomingTodo # incoming) =
     mergeServerState dp opt (mergeIncoming dp opt st incomingTodo) incoming"

definition compareIds :: "Todo \<Rightarrow> Todo \<Rightarrow> int" where
  "compareIds a b = (if todoId a < todoId b then -1 else if todoId a > todoId b then 1 else 0)"

definition compareByCreatedAt :: "DateParse \<Rightarrow> Todo \<Rightarrow> Todo \<Rightarrow> int" where
  "compareByCreatedAt dp a b =
     (case (dp (createdAt a), dp (createdAt b)) of
        (Some aTime, Some bTime) \<Rightarrow> if aTime \<noteq> bTime then aTime - bTime else compareIds a b
      | _ \<Rightarrow> compareIds a b)"

definition applyMutation :: "Todo \<Rightarrow> PendingMutation \<Rightarrow> Todo" where
  "applyMutation acc mutation =
     acc\<lparr>state := m_nextState mutation, updatedAt := m_appliedAt mutation\<rparr>"

definition deriveDisplayTodos :: "SyncState \<Rightarrow> Todo list" where
  "deriveDisplayTodos st =
     map (\<lambda>todo. foldl applyMutation todo (getAllPendingMutations st (todoId todo)))
       (getAllServerTodos st)"

text \<open>\<open>mergeTodos\<close> returns the display list and leaves the cache updated.\<close>

definition mergeTodos ::
  "DateParse \<Rightarrow> SyncState \<Rightarrow> Todo list \<Rightarrow> Todo list \<Rightarrow> Todo list \<times> SyncState" where
  "mergeTodos dp st local incoming =
     (let opt = optimisticCreatedAtById local Map.empty;
          st' = mergeServerState dp opt st incoming;
          optimisticTodos =
            filter (\<lambda>todo. isOptimisticTodo todo \<and> getServerTodo st' (todoId todo) = None) local
      in (array_sort (compareByCreatedAt dp) (deriveDisplayTodos st' @ optimisticTodos), st'))"


section \<open>Retry configuration (packages/core/src/utils/retry.ts)\<close>

definition DEFAULT_RETRIES :: nat where "DEFAULT_RETRIES = 10"
definition DEFAULT_FACTOR :: nat where "DEFAULT_FACTOR = 2"
definition DEFAULT_MIN_TIMEOUT :: nat where "DEFAULT_MIN_TIMEOUT = 1000"
definition DEFAULT_MAX_TIMEOUT :: enat where "DEFAULT_MAX_TIMEOUT = \<infinity>"

record BackoffOptions =
  factor :: "nat option"
  minTimeout :: "nat option"
  maxTimeout :: "enat option"

text \<open>
  \<open>createBackoff(options)\<close> returns a timer; \<open>createBackoff options attempt\<close> is the
  delay in milliseconds that the timer waits on the given attempt when no abort signal
  is passed. Attempts count from 1.
\<close>

definition createBackoff :: "BackoffOptions option \<Rightarrow> nat \<Rightarrow> enat" where
  "createBackoff options attempt =
     (let factor = nullish_or (Option.bind options factor) DEFAULT_FACTOR;
          minTimeout = nullish_or (Option.bind options minTimeout) DEFAULT_MIN_TIMEOUT;
          maxTimeout = nullish_or (Option.bind options maxTimeout) DEFAULT_MAX_TIMEOUT
      in min (enat (minTimeout * factor ^ (attempt - 1))) maxTimeout)"

definition DEFAULT_BACKOFF :: "nat \<Rightarrow> enat" where
  "DEFAULT_BACKOFF = createBackoff None"

section \<open>Mutation processor (apps/web/src/lib/sync/processor.ts)\<close>

text \<open>
  The processor reads and writes the sync state and the Svelte stores. \<open>ClientState\<close>
  gathers what it touches: the sync state, the user of the auth store, the list id and
  error of the list store, the todos of the todos store, and the counters of the sync
  store behind \<open>beginSyncOp\<close> and \<open>endSyncOp\<close>. Two further fields record what the
  run did to the outside: \<open>requests\<close> lists the calls of \<open>api.updateTodoState\<close> in
  order (todo id and body), \<open>delays\<close> the backoff delays it waited, in milliseconds.
\<close>

datatype AuthStatus = AuthLoading | AuthReady | AuthError | SessionExpired
datatype ListError = ListNotFound
datatype SyncStatus = Idle | Syncing | SyncFailed

record UpdateTodoStateRequest =
  r_userId :: string
  r_nextState :: TodoState
  r_expectedVersion :: int

record ClientState =
  sync :: SyncState
  auth_user :: "string option"
  auth_status :: AuthStatus
  list_listId :: "string option"
  list_error :: "ListError option"
  display_todos :: "Todo list"
  pendingSyncOps :: nat
  sync_status :: SyncStatus
  sync_error :: "string option"
  requests :: "(string \<times> UpdateTodoStateRequest) list"
  delays :: "enat list"

datatype ValidationResult = VProceed | VDone | VConflict string

datatype ExecutionResult =
    ExSuccess Todo
  | ExVersionConflict Todo
  | ExInvalidTransition
  | ExAuthError
  | ExNetworkError string
  | ExCancelled

text \<open>
  \<open>api.updateTodoState\<close> returns an \<open>UpdateTodoStateResponse\<close> or throws. The
  processor tells three kinds of thrown error apart: a 401 (\<open>isUnauthenticatedError\<close>),
  an \<open>InvalidTransitionError\<close>, and every other error, which carries a message.
\<close>

datatype ApiResponse = ApiOk Todo | ApiConflict Todo | ApiOther
datatype ApiThrow = Unauthenticated | InvalidTransitionError | OtherError string

text \<open>
  A run is suspended at each \<open>await\<close> of the network, of the backoff timer and of
  \<open>syncOnce\<close>. The environment is a script of events, one for each such \<open>await\<close>
  in the order the run reaches them. Each event carries a function on the client state
  that stands for everything the rest of the application did to it while the run was
  suspended; \<open>ApiSettled\<close> carries in addition the outcome of the call. The effect of
  \<open>syncOnce\<close> itself (a fetch and a merge, in operations.ts) is part of the function
  of \<open>SyncReturned\<close>.
\<close>

datatype Event =
    ApiSettled "ClientState \<Rightarrow> ClientState" "ApiThrow + ApiResponse"
  | BackoffElapsed "ClientState \<Rightarrow> ClientState"
  | SyncReturned "ClientState \<Rightarrow> ClientState"

text \<open>
  How a run ends. The first six are the \<open>return\<close>s and the loop exit of
  \<open>processMutations\<close>; \<open>Suspended\<close> says that the script ended while the run was
  waiting, \<open>ScriptMismatch\<close> that the next event is not the one the run waits for.
\<close>

datatype RunExit =
    RunInvalid | CannotProcess | QueueEmpty | GaveUp | AuthFailed | RunCancelled
  | Suspended | ScriptMismatch

definition beginSyncOp :: "ClientState \<Rightarrow> ClientState" where
  "beginSyncOp cs = cs\<lparr>pendingSyncOps := pendingSyncOps cs + 1, sync_status := Syncing\<rparr>"

definition endSyncOp :: "string option \<Rightarrow> ClientState \<Rightarrow> ClientState" where
  "endSyncOp error cs =
     (let n = pendingSyncOps cs - 1;
          truthy = (case error of None \<Rightarrow> False | Some e \<Rightarrow> e \<noteq> [])
      in if n = 0 then
           cs\<lparr>pendingSyncOps := n, sync_status := (if truthy then SyncFailed else Idle),
              sync_error := error\<rparr>
         else if truthy then cs\<lparr>pendingSyncOps := n, sync_error := error\<rparr>
         else cs\<lparr>pendingSyncOps := n\<rparr>)"

definition setSessionExpired :: "ClientState \<Rightarrow> ClientState" where
  "setSessionExpired cs = cs\<lparr>auth_user := None, auth_status := SessionExpired\<rparr>"

definition handleAuthError :: "ClientState \<Rightarrow> ClientState" where
  "handleAuthError cs = setSessionExpired (cs\<lparr>sync := clearSyncState (sync cs)\<rparr>)"

definition updateDisplayTodos :: "DateParse \<Rightarrow> Todo list \<Rightarrow> ClientState \<Rightarrow> ClientState" where
  "updateDisplayTodos dp serverTodos cs =
     (case mergeTodos dp (sync cs) (display_todos cs) serverTodos of
        (merged, st') \<Rightarrow> cs\<lparr>display_todos := merged, sync := st'\<rparr>)"

definition canProcess :: "ClientState \<Rightarrow> bool" where
  "canProcess cs = (auth_user cs \<noteq> None \<and> list_listId cs \<noteq> None \<and> list_error cs = None)"

definition isRunValid :: "ClientState \<Rightarrow> nat \<Rightarrow> bool" where
  "isRunValid cs runGen = (runGeneration (sync cs) = runGen)"

definition validateMutation :: "ClientState \<Rightarrow> PendingMutation \<Rightarrow> ValidationResult" where
  "validateMutation cs mutation =
     (case getServerTodo (sync cs) (m_todoId mutation) of
        None \<Rightarrow> VDone
      | Some serverTodo \<Rightarrow>
          if (case deletedAt serverTodo of None \<Rightarrow> False | Some d \<Rightarrow> d \<noteq> []) then VDone
          else if state serverTodo = m_nextState mutation then VDone
          else if \<not> isValidTransition (state serverTodo) (m_nextState mutation)
            then VConflict ''Conflict, change not applied''
          else VProceed)"

text \<open>
  \<open>executeMutation\<close> is split at its \<open>await\<close>. The first half returns \<open>None\<close>
  where the function returns \<open>cancelled\<close> at once; otherwise it gives the request it
  sends and the state after \<open>beginSyncOp\<close>, with the request recorded. The second
  half classifies the outcome on the state found when the call settles, and runs the
  \<open>finally\<close> block.
\<close>

definition executeMutation_request ::
  "ClientState \<Rightarrow> PendingMutation \<Rightarrow> ((string \<times> UpdateTodoStateRequest) \<times> ClientState) option" where
  "executeMutation_request cs mutation =
     (case (auth_user cs, getServerTodo (sync cs) (m_todoId mutation)) of
        (Some user, Some serverTodo) \<Rightarrow>
          (let request = (m_todoId mutation,
                 \<lparr>r_userId = user, r_nextState = m_nextState mutation,
                  r_expectedVersion = version serverTodo\<rparr>);
               cs' = beginSyncOp cs
           in Some (request, cs'\<lparr>requests := requests cs' @ [request]\<rparr>))
      | _ \<Rightarrow> None)"

definition executeMutation_result ::
  "nat \<Rightarrow> ApiThrow + ApiResponse \<Rightarrow> ClientState \<Rightarrow> ExecutionResult \<times> ClientState" where
  "executeMutation_result runGen outcome cs =
     (let result =
        (case outcome of
           Inr response \<Rightarrow>
             if \<not> isRunValid cs runGen then ExCancelled
             else (case response of
                     ApiOk todo \<Rightarrow> ExSuccess todo
                   | ApiConflict currentTodo \<Rightarrow> ExVersionConflict currentTodo
                   | ApiOther \<Rightarrow> ExNetworkError ''Unknown response'')
         | Inl err \<Rightarrow>
             (case err of
                Unauthenticated \<Rightarrow> ExAuthError
              | InvalidTransitionError \<Rightarrow> ExInvalidTransition
              | OtherError message \<Rightarrow> ExNetworkError message))
      in (result, endSyncOp None cs))"

text \<open>
  The state in which an iteration reaches the API call: the run is valid, processing
  is possible, \<open>mutation\<close> is at the head of the queue, and validation says proceed.
\<close>

definition runnable :: "ClientState \<Rightarrow> string \<Rightarrow> nat \<Rightarrow> PendingMutation \<Rightarrow> bool" where
  "runnable cs i runGen mutation \<longleftrightarrow>
     isRunValid cs runGen \<and> canProcess cs \<and> getNextMutation (sync cs) i = Some mutation \<and>
     validateMutation cs mutation = VProceed"

definition queueLength :: "ClientState \<Rightarrow> string \<Rightarrow> nat" where
  "queueLength cs i = length (getAllPendingMutations (sync cs) i)"

text \<open>The branch of the loop for a validation result other than \<open>proceed\<close>.\<close>

definition skipMutation :: "DateParse \<Rightarrow> string \<Rightarrow> ClientState \<Rightarrow> ClientState" where
  "skipMutation dp i cs = updateDisplayTodos dp [] (cs\<lparr>sync := dequeueMutation (sync cs) i\<rparr>)"


section \<open>Example data\<close>

subsection \<open>A store holding one todo (apps/server/src/store.test.ts)\<close>

definition example_todo :: Todo where
  "example_todo =
     \<lparr>todoId = ''todo-1'', listId = ''list-1'', title = ''Test'', state = TODO,
      createdBy = ''user-1'', createdAt = ''2025-01-01T00:00:00.000Z'',
      updatedAt = ''2025-01-01T00:00:00.000Z'', version = 2, deletedAt = None\<rparr>"

definition example_store :: Store where
  "example_store = createTodo emptyStore example_todo"

definition example_updates :: TodoUpdates where
  "example_updates =
     \<lparr>u_title = None, u_state = Some ONGOING,
      u_updatedAt = Some ''2025-01-01T00:00:01.000Z'', u_version = None,
      u_deletedAt = None\<rparr>"


subsection \<open>The store of the cursor tests (apps/server/src/store.test.ts)\<close>

definition todo_a :: Todo where
  "todo_a =
     \<lparr>todoId = ''a'', listId = ''list-1'', title = ''A'', state = TODO,
      createdBy = ''user-1'', createdAt = ''2025-01-01T00:00:00.000Z'',
      updatedAt = ''2025-01-01T00:00:00.000Z'', version = 1, deletedAt = None\<rparr>"

definition todo_b :: Todo where
  "todo_b =
     \<lparr>todoId = ''b'', listId = ''list-1'', title = ''B'', state = TODO,
      createdBy = ''user-1'', createdAt = ''2025-01-01T00:00:00.000Z'',
      updatedAt = ''2025-01-01T00:00:00.000Z'', version = 1, deletedAt = None\<rparr>"

definition todo_c :: Todo where
  "todo_c =
     \<lparr>todoId = ''c'', listId = ''list-1'', title = ''C'', state = TODO,
      createdBy = ''user-1'', createdAt = ''2025-01-01T00:00:00.000Z'',
      updatedAt = ''2025-01-01T00:00:00.001Z'', version = 1,
      deletedAt = Some ''2025-01-01T00:00:00.001Z''\<rparr>"

definition cursor_store :: Store where
  "cursor_store = createTodo (createTodo (createTodo emptyStore todo_c) todo_b) todo_a"

definition cursor_after_a :: CursorArg where
  "cursor_after_a =
     \<lparr>a_updatedAt = Some ''2025-01-01T00:00:00.000Z'', a_todoId = Some ''a''\<rparr>"

subsection \<open>Todos of the merge tests (apps/web/src/lib/sync/merge.test.ts)\<close>

definition merge_todo :: Todo where
  "merge_todo =
     \<lparr>todoId = ''todo-1'', listId = ''list-1'', title = ''Test todo'', state = TODO,
      createdBy = ''user-1'', createdAt = ''2024-01-01T00:00:00Z'',
      updatedAt = ''2024-01-01T00:00:00Z'', version = 1, deletedAt = None\<rparr>"

definition merge_earlier :: Todo where
  "merge_earlier = merge_todo\<lparr>title := ''Earlier''\<rparr>"

definition merge_later :: Todo where
  "merge_later = merge_todo\<lparr>title := ''Later'', updatedAt := ''2024-01-01T01:00:00Z''\<rparr>"

definition merge_old :: Todo where
  "merge_old = merge_todo\<lparr>title := ''Old'', version := 0\<rparr>"

definition merge_optimistic :: Todo where
  "merge_optimistic = merge_todo\<lparr>version := 0\<rparr>"

definition merge_confirmed :: Todo where
  "merge_confirmed = merge_todo\<lparr>createdAt := ''2024-01-01T00:00:01Z''\<rparr>"

text \<open>The time values of the timestamps that the examples use.\<close>

definition example_dp :: DateParse where
  "example_dp s =
     (if s = ''2024-01-01T00:00:00Z'' then Some 1704067200000
      else if s = ''2024-01-01T00:00:01Z'' then Some 1704067201000
      else if s = ''2024-01-01T01:00:00Z'' then Some 1704070800000
      else None)"

definition merge_state :: SyncState where
  "merge_state = setServerTodo initialSyncState merge_earlier"

subsection \<open>A client with one queued state change\<close>

text \<open>
  The cache holds \<open>todo-1\<close> at version 1 in state TODO; the user has asked for ONGOING,
  which is queued and shown optimistically. Meanwhile another client has moved the todo
  to ONGOING and back, so the server holds version 3.
\<close>

definition queued_mutation :: PendingMutation where
  "queued_mutation =
     \<lparr>m_id = ''mutation-1'', m_todoId = ''todo-1'',
      m_appliedAt = ''2024-01-01T00:00:01Z'', m_nextState = ONGOING\<rparr>"

definition queued_client :: ClientState where
  "queued_client =
     \<lparr>sync = (setServerTodo initialSyncState merge_todo)
               \<lparr>pendingMutations := [(''todo-1'', [queued_mutation])]\<rparr>,
      auth_user = Some ''user-1'', auth_status = AuthReady,
      list_listId = Some ''list-1'', list_error = None,
      display_todos = [applyMutation merge_todo queued_mutation],
      pendingSyncOps = 0, sync_status = Idle, sync_error = None,
      requests = [], delays = []\<rparr>"

definition server_current :: Todo where
  "server_current = merge_todo\<lparr>updatedAt := ''2024-01-01T00:00:01Z'', version := 3\<rparr>"

definition network_failure :: Event where
  "network_failure = ApiSettled (\<lambda>c. c) (Inl (OtherError ''Failed to fetch''))"

subsection \<open>A clock that stalls and then runs backwards\<close>



text \<open>
  Facts for the termination of the loop: an iteration that consumes no event shortens
  the queue of the todo.
\<close>

lemma pendingMutations_mergeIncoming:
  "pendingMutations (mergeIncoming dp opt st t) = pendingMutations st"
  by (simp add: mergeIncoming_def updateServerStateEntry_def setServerTodo_def Let_def)

lemma pendingMutations_mergeServerState:
  "pendingMutations (mergeServerState dp opt st ts) = pendingMutations st"
  by (induction ts arbitrary: st) (simp_all add: pendingMutations_mergeIncoming)

lemma pendingMutations_updateDisplayTodos:
  "pendingMutations (sync (updateDisplayTodos dp ts cs)) = pendingMutations (sync cs)"
  by (simp add: updateDisplayTodos_def mergeTodos_def Let_def pendingMutations_mergeServerState)

lemma queueLength_skipMutation:
  assumes "getNextMutation (sync cs) i = Some m"
  shows "queueLength (skipMutation dp i cs) i < queueLength cs i"
proof -
  from assms obtain q where q: "map_of (pendingMutations (sync cs)) i = Some (m # q)"
    by (auto simp: getNextMutation_def split: option.splits list.splits)
  have "pendingMutations (sync (skipMutation dp i cs))
          = pendingMutations (dequeueMutation (sync cs) i)"
    by (simp add: skipMutation_def pendingMutations_updateDisplayTodos)
  also have "\<dots> = (if q = [] then AList.delete i (pendingMutations (sync cs))
                      else AList.update i q (pendingMutations (sync cs)))"
    using q by (simp add: dequeueMutation_def)
  finally have "map_of (pendingMutations (sync (skipMutation dp i cs))) i
       = (if q = [] then None else Some q)"
    by (simp add: delete_conv' update_conv')
  with q show ?thesis
    by (simp add: queueLength_def getAllPendingMutations_def nullish_or_def)
qed

text \<open>
  The loop of \<open>processMutations\<close>, with the retry counter \<open>attempt\<close> as an argument
  (it starts at 1). The vendor call \<open>cancelEventStream\<close> of \<open>handleAuthError\<close> acts
  outside the client state and is left out.
\<close>

function processMutations ::
  "DateParse \<Rightarrow> string \<Rightarrow> nat \<Rightarrow> nat \<Rightarrow> Event list \<Rightarrow> ClientState \<Rightarrow> RunExit \<times> ClientState" where
  "processMutations dp i runGen attempt evs cs =
     (if \<not> isRunValid cs runGen then (RunInvalid, cs)
      else if \<not> canProcess cs then (CannotProcess, cs)
      else
        case getNextMutation (sync cs) i of
          None \<Rightarrow> (QueueEmpty, cs)
        | Some mutation \<Rightarrow>
            if validateMutation cs mutation \<noteq> VProceed then
              processMutations dp i runGen attempt evs (skipMutation dp i cs)
            else
              case executeMutation_request cs mutation of
                None \<Rightarrow> (RunCancelled, cs)
              | Some (request, cs1) \<Rightarrow>
                  (case evs of
                     [] \<Rightarrow> (Suspended, cs1)
                   | ApiSettled world outcome # evs1 \<Rightarrow>
                       (case executeMutation_result runGen outcome (world cs1) of
                          (ExNetworkError message, cs2) \<Rightarrow>
                            if attempt \<ge> DEFAULT_RETRIES then (GaveUp, cs2)
                            else
                              (let cs3 = cs2\<lparr>delays := delays cs2 @ [DEFAULT_BACKOFF attempt]\<rparr>
                               in case evs1 of
                                    [] \<Rightarrow> (Suspended, cs3)
                                  | BackoffElapsed world' # evs2 \<Rightarrow>
                                      processMutations dp i runGen (attempt + 1) evs2 (world' cs3)
                                  | _ # _ \<Rightarrow> (ScriptMismatch, cs3))
                        | (ExSuccess todo, cs2) \<Rightarrow>
                            processMutations dp i runGen 1 evs1
                              (updateDisplayTodos dp [todo]
                                 (cs2\<lparr>sync := dequeueMutation (sync cs2) (m_todoId mutation)\<rparr>))
                        | (ExVersionConflict todo, cs2) \<Rightarrow>
                            processMutations dp i runGen 1 evs1 (updateDisplayTodos dp [todo] cs2)
                        | (ExInvalidTransition, cs2) \<Rightarrow>
                            (case evs1 of
                               [] \<Rightarrow> (Suspended, cs2)
                             | SyncReturned world' # evs2 \<Rightarrow>
                                 processMutations dp i runGen 1 evs2 (world' cs2)
                             | _ # _ \<Rightarrow> (ScriptMismatch, cs2))
                        | (ExAuthError, cs2) \<Rightarrow> (AuthFailed, handleAuthError cs2)
                        | (ExCancelled, cs2) \<Rightarrow> (RunCancelled, cs2))
                   | _ # _ \<Rightarrow> (ScriptMismatch, cs1)))"
  by pat_completeness auto

termination
  apply (relation "measures [\<lambda>(dp, i, runGen, attempt, evs, cs). length evs,
                             \<lambda>(dp, i, runGen, attempt, evs, cs). queueLength cs i]")
  apply (auto simp: queueLength_skipMutation)
  done

declare processMutations.simps [simp del]


section \<open>Sync token (packages/core/src/utils/sync-token.ts)\<close>

text \<open>
  A payload has a \<open>lastUpdatedAt\<close> string and an optional \<open>lastId\<close> string.
\<close>

record SyncTokenPayload =
  lastUpdatedAt :: string
  lastId :: "string option"

text \<open>
  The values that \<open>JSON.parse\<close> returns. An object keeps its members in the order
  of the text; the platform lists integer keys first, an order that no operation here
  observes. A number is kept as the decimal \<open>m * 10 ^ e\<close> that its text denotes; no
  operation of this development inspects it.
\<close>

datatype JsonValue =
    JNull
  | JBool bool
  | JNumber int int
  | JString string
  | JArray "JsonValue list"
  | JObject "(string \<times> JsonValue) list"

text \<open>
  \<open>JSON\<close>, \<open>Buffer\<close>, \<open>btoa\<close> and \<open>atob\<close> belong to the platform and enter as a
  parameter. \<open>hasBuffer\<close> is the test \<open>typeof Buffer !== 'undefined'\<close>.
  \<open>JSON.parse\<close>, \<open>btoa\<close> and \<open>atob\<close> may throw, which is the value \<open>None\<close>;
  \<open>Buffer.from(s, 'utf-8').toString('base64')\<close> and
  \<open>Buffer.from(t, 'base64').toString('utf-8')\<close> always return. The units of a
  \<^typ>\<open>string\<close> are the code units below 256, the ones \<open>btoa\<close> accepts.
\<close>

record Platform =
  hasBuffer :: bool
  JSON_stringify :: "JsonValue \<Rightarrow> string"
  JSON_parse :: "string \<Rightarrow> JsonValue option"
  Buffer_utf8_to_base64 :: "string \<Rightarrow> string"
  Buffer_base64_to_utf8 :: "string \<Rightarrow> string"
  btoa :: "string \<Rightarrow> string option"
  atob :: "string \<Rightarrow> string option"

text \<open>The object that a payload is: an absent \<open>lastId\<close> is no member at all.\<close>

definition payloadObject :: "SyncTokenPayload \<Rightarrow> JsonValue" where
  "payloadObject payload =
     JObject ((''lastUpdatedAt'', JString (lastUpdatedAt payload))
              # (case lastId payload of None \<Rightarrow> [] | Some i \<Rightarrow> [(''lastId'', JString i)]))"

text \<open>\<open>encodeSyncToken\<close> returns \<open>None\<close> where \<open>btoa\<close> throws.\<close>

definition encodeSyncToken :: "Platform \<Rightarrow> SyncTokenPayload \<Rightarrow> string option" where
  "encodeSyncToken P payload =
     (let json = JSON_stringify P (payloadObject payload)
      in if hasBuffer P then Some (Buffer_utf8_to_base64 P json) else btoa P json)"

text \<open>
  The operators of the test in \<open>decodeSyncToken\<close>: \<open>key in payload\<close>,
  \<open>payload.key\<close>, \<open>typeof payload === 'object'\<close> and
  \<open>typeof payload.key === 'string'\<close>. An absent property reads as \<open>undefined\<close>, the
  value \<open>None\<close>.
\<close>

definition property_in :: "string \<Rightarrow> JsonValue \<Rightarrow> bool" where
  "property_in key v = (case v of JObject props \<Rightarrow> map_of props key \<noteq> None | _ \<Rightarrow> False)"

definition property :: "JsonValue \<Rightarrow> string \<Rightarrow> JsonValue option" where
  "property v key = (case v of JObject props \<Rightarrow> map_of props key | _ \<Rightarrow> None)"

definition typeof_object :: "JsonValue \<Rightarrow> bool" where
  "typeof_object v =
     (case v of JNull \<Rightarrow> True | JArray _ \<Rightarrow> True | JObject _ \<Rightarrow> True | _ \<Rightarrow> False)"

definition typeof_string :: "JsonValue option \<Rightarrow> bool" where
  "typeof_string v = (case v of Some (JString _) \<Rightarrow> True | _ \<Rightarrow> False)"

definition string_of :: "JsonValue option \<Rightarrow> string option" where
  "string_of v = (case v of Some (JString s) \<Rightarrow> Some s | _ \<Rightarrow> None)"

text \<open>
  \<open>decodeSyncToken\<close> returns \<open>null\<close>, the value \<open>None\<close>, when the test fails and
  when anything inside the \<open>try\<close> block throws. The payload it returns is read
  through its two fields only.
\<close>

definition decodeSyncToken :: "Platform \<Rightarrow> string \<Rightarrow> SyncTokenPayload option" where
  "decodeSyncToken P token =
     (case (if hasBuffer P then Some (Buffer_base64_to_utf8 P token) else atob P token) of
        None \<Rightarrow> None
      | Some json \<Rightarrow>
          (case JSON_parse P json of
             None \<Rightarrow> None
           | Some payload \<Rightarrow>
               if typeof_object payload \<and> payload \<noteq> JNull \<and>
                  property_in ''lastUpdatedAt'' payload \<and>
                  typeof_string (property payload ''lastUpdatedAt'') \<and>
                  (\<not> property_in ''lastId'' payload \<or> typeof_string (property payload ''lastId''))
               then (case string_of (property payload ''lastUpdatedAt'') of
                       Some u \<Rightarrow> Some \<lparr>lastUpdatedAt = u,
                                        lastId = string_of (property payload ''lastId'')\<rparr>
                     | None \<Rightarrow> None)
               else None))"

text \<open>
  What the platform has to provide for a token to carry a payload: parsing the text
  of a payload object gives the object back, and decoding an encoded text gives the
  text back.
\<close>

definition json_lossless :: "Platform \<Rightarrow> bool" where
  "json_lossless P \<longleftrightarrow>
     (\<forall>payload. JSON_parse P (JSON_stringify P (payloadObject payload))
        = Some (payloadObject payload))"

definition buffer_lossless :: "Platform \<Rightarrow> bool" where
  "buffer_lossless P \<longleftrightarrow> (\<forall>s. Buffer_base64_to_utf8 P (Buffer_utf8_to_base64 P s) = s)"

definition binary_lossless :: "Platform \<Rightarrow> bool" where
  "binary_lossless P \<longleftrightarrow> (\<forall>s t. btoa P s = Some t \<longrightarrow> atob P t = Some s)"

section \<open>Delta sync route (apps/server/src/routes/todos.ts)\<close>

text \<open>
  The reply of \<open>GET /lists/:listId/todos\<close>: the todos and the new sync token, the
  404 of a missing list, or the 500 of a handler that throws.
\<close>

datatype SyncReply =
    Ok200 "Todo list" string
  | NotFound404
  | Thrown500

text \<open>\<open>new Date(0).toISOString()\<close>\<close>

definition epochISOString :: string where
  "epochISOString = ''1970-01-01T00:00:00.000Z''"

text \<open>
  The cursor that the route passes on: none when the query has no \<open>syncToken\<close>,
  when the token is the empty string (\<open>if (syncToken)\<close>) and when
  \<open>decodeSyncToken\<close> returns \<open>null\<close>.
\<close>

definition cursorOfToken :: "Platform \<Rightarrow> string option \<Rightarrow> CursorArg option" where
  "cursorOfToken P syncToken =
     (case syncToken of
        None \<Rightarrow> None
      | Some token \<Rightarrow>
          if token = [] then None
          else (case decodeSyncToken P token of
                  None \<Rightarrow> None
                | Some payload \<Rightarrow>
                    (case lastId payload of
                       None \<Rightarrow> Some \<lparr>a_updatedAt = Some (lastUpdatedAt payload), a_todoId = None\<rparr>
                     | Some i \<Rightarrow>
                         Some \<lparr>a_updatedAt = Some (lastUpdatedAt payload), a_todoId = Some i\<rparr>)))"

definition getTodosRoute :: "Platform \<Rightarrow> Store \<Rightarrow> string \<Rightarrow> string option \<Rightarrow> SyncReply" where
  "getTodosRoute P s l syncToken =
     (if \<not> listExists s l then NotFound404
      else
        let cursor = cursorOfToken P syncToken;
            todoList = getTodosForList s l cursor;
            lastTodo = (if todoList = [] then None else Some (last todoList));
            latestUpdatedAt =
              (case lastTodo of
                 Some t \<Rightarrow> updatedAt t
               | None \<Rightarrow> nullish_or (Option.bind cursor a_updatedAt) epochISOString);
            latestTodoId =
              (case lastTodo of
                 Some t \<Rightarrow> Some (todoId t)
               | None \<Rightarrow> Option.bind cursor a_todoId)
        in case encodeSyncToken P \<lparr>lastUpdatedAt = latestUpdatedAt, lastId = latestTodoId\<rparr> of
             None \<Rightarrow> Thrown500
           | Some newSyncToken \<Rightarrow> Ok200 todoList newSyncToken)"

text \<open>The test of \<open>decodeSyncToken\<close> on the parsed value.\<close>

definition wellFormedPayload :: "JsonValue \<Rightarrow> bool" where
  "wellFormedPayload v \<longleftrightarrow>
     typeof_object v \<and> v \<noteq> JNull \<and> property_in ''lastUpdatedAt'' v \<and>
     typeof_string (property v ''lastUpdatedAt'') \<and>
     (\<not> property_in ''lastId'' v \<or> typeof_string (property v ''lastId''))"


section \<open>A reference platform\<close>

text \<open>
  One platform in full, on which the contracts above are proved and tokens are
  computed: Base64 with the lenient decoder of \<open>Buffer\<close>, UTF-8 for the code units
  below 256, and JSON.
\<close>

subsection \<open>Base64\<close>

text \<open>
  \<open>base64_encode\<close> writes the alphabet of RFC 4648 with padding. The decoder of
  \<open>Buffer\<close> is lenient: it reads the characters of that alphabet and of the URL-safe
  one, skips every other character, and stops at the first \<open>=\<close>; four characters give
  three bytes, and a last group of three or two characters gives two bytes or one.
\<close>

definition b64char :: "nat \<Rightarrow> char" where
  "b64char n =
     (if n < 26 then char_of (65 + n)
      else if n < 52 then char_of (71 + n)
      else if n < 62 then char_of (n - 4)
      else if n = 62 then CHR ''+'' else CHR ''/'')"

definition b64val :: "char \<Rightarrow> nat option" where
  "b64val c =
     (let n = (of_char c :: nat)
      in if 65 \<le> n \<and> n \<le> 90 then Some (n - 65)
         else if 97 \<le> n \<and> n \<le> 122 then Some (n - 71)
         else if 48 \<le> n \<and> n \<le> 57 then Some (n + 4)
         else if c = CHR ''+'' \<or> c = CHR ''-'' then Some 62
         else if c = CHR ''/'' \<or> c = CHR ''_'' then Some 63
         else None)"

fun base64_encode :: "string \<Rightarrow> string" where
  "base64_encode [] = []"
| "base64_encode [a] =
     (let A = (of_char a :: nat)
      in [b64char (A div 4), b64char (A mod 4 * 16), CHR ''='', CHR ''=''])"
| "base64_encode [a, b] =
     (let A = (of_char a :: nat); B = (of_char b :: nat)
      in [b64char (A div 4), b64char (A mod 4 * 16 + B div 16), b64char (B mod 16 * 4),
          CHR ''=''])"
| "base64_encode (a # b # c # rest) =
     (let A = (of_char a :: nat); B = (of_char b :: nat); C = (of_char c :: nat)
      in [b64char (A div 4), b64char (A mod 4 * 16 + B div 16),
          b64char (B mod 16 * 4 + C div 64), b64char (C mod 64)] @ base64_encode rest)"

fun base64_sextets :: "string \<Rightarrow> nat list" where
  "base64_sextets [] = []"
| "base64_sextets (c # t) =
     (if c = CHR ''='' then []
      else case b64val c of
             None \<Rightarrow> base64_sextets t
           | Some v \<Rightarrow> v # base64_sextets t)"

fun sextets_to_bytes :: "nat list \<Rightarrow> string" where
  "sextets_to_bytes (W # X # Y # Z # rest) =
     [char_of (W * 4 + X div 16), char_of (X mod 16 * 16 + Y div 4), char_of (Y mod 4 * 64 + Z)]
       @ sextets_to_bytes rest"
| "sextets_to_bytes [W, X, Y] = [char_of (W * 4 + X div 16), char_of (X mod 16 * 16 + Y div 4)]"
| "sextets_to_bytes [W, X] = [char_of (W * 4 + X div 16)]"
| "sextets_to_bytes _ = []"

definition base64_decode :: "string \<Rightarrow> string" where
  "base64_decode t = sextets_to_bytes (base64_sextets t)"

text \<open>
  The texts that RFC 4648 calls Base64: groups of four characters of the alphabet,
  the last group ending in at most two \<open>=\<close>.
\<close>

definition isBase64 :: "string \<Rightarrow> bool" where
  "isBase64 t \<longleftrightarrow>
     length t mod 4 = 0 \<and>
     list_all (\<lambda>c. b64val c \<noteq> None \<and> c \<noteq> CHR ''-'' \<and> c \<noteq> CHR ''_'')
       (takeWhile (\<lambda>c. c \<noteq> CHR ''='') t) \<and>
     dropWhile (\<lambda>c. c \<noteq> CHR ''='') t \<in> {[], ''='', ''==''}"

text \<open>
  \<open>atob\<close> throws on a text that is not an encoding; the reference accepts the
  canonical encodings.
\<close>

definition reference_atob :: "string \<Rightarrow> string option" where
  "reference_atob t =
     (if base64_encode (base64_decode t) = t then Some (base64_decode t) else None)"

subsection \<open>UTF-8 of the code units below 256\<close>

text \<open>
  The bytes below 128 and the two-byte encodings of the code units from 128 to 255
  are read as the platform reads them. Every other byte is read as a question mark:
  it belongs to the encoding of a code unit that \<^typ>\<open>char\<close> does not have, or to
  no encoding, which the platform reads as U+FFFD.
\<close>

definition utf8_char :: "char \<Rightarrow> string" where
  "utf8_char c =
     (let n = (of_char c :: nat)
      in if n < 128 then [c] else [char_of (192 + n div 64), char_of (128 + n mod 64)])"

definition utf8_encode :: "string \<Rightarrow> string" where
  "utf8_encode s = concat (map utf8_char s)"

fun utf8_decode :: "string \<Rightarrow> string" where
  "utf8_decode [] = []"
| "utf8_decode [b] = (if (of_char b :: nat) < 128 then [b] else ''?'')"
| "utf8_decode (b # b2 # bs) =
     (let n = (of_char b :: nat); n2 = (of_char b2 :: nat)
      in if n < 128 then b # utf8_decode (b2 # bs)
         else if 194 \<le> n \<and> n \<le> 195 \<and> 128 \<le> n2 \<and> n2 < 192
           then char_of ((n - 192) * 64 + (n2 - 128)) # utf8_decode bs
         else CHR ''?'' # utf8_decode (b2 # bs))"

subsection \<open>JSON\<close>

text \<open>
  \<open>quoteJSONString\<close> is \<open>QuoteJSONString\<close> of ECMA-262: the two-character escapes,
  the six-character hexadecimal escape for the other control characters, every other
  code unit as it is.
\<close>

definition hexdigit :: "nat \<Rightarrow> char" where
  "hexdigit n = (if n < 10 then char_of (48 + n) else char_of (87 + n))"

definition hexval :: "char \<Rightarrow> nat option" where
  "hexval c =
     (let n = (of_char c :: nat)
      in if 48 \<le> n \<and> n \<le> 57 then Some (n - 48)
         else if 97 \<le> n \<and> n \<le> 102 then Some (n - 87)
         else if 65 \<le> n \<and> n \<le> 70 then Some (n - 55)
         else None)"

definition quoteChar :: "char \<Rightarrow> string" where
  "quoteChar c =
     (if c = CHR 0x08 then [CHR 0x5C, CHR ''b'']
      else if c = CHR 0x09 then [CHR 0x5C, CHR ''t'']
      else if c = CHR 0x0A then [CHR 0x5C, CHR ''n'']
      else if c = CHR 0x0C then [CHR 0x5C, CHR ''f'']
      else if c = CHR 0x0D then [CHR 0x5C, CHR ''r'']
      else if c = CHR 0x22 then [CHR 0x5C, CHR 0x22]
      else if c = CHR 0x5C then [CHR 0x5C, CHR 0x5C]
      else if (of_char c :: nat) < 32 then
        [CHR 0x5C, CHR ''u'', CHR ''0'', CHR ''0'',
         hexdigit ((of_char c :: nat) div 16), hexdigit ((of_char c :: nat) mod 16)]
      else [c])"

definition quoteJSONString :: "string \<Rightarrow> string" where
  "quoteJSONString s = CHR 0x22 # concat (map quoteChar s) @ [CHR 0x22]"

text \<open>
  \<open>JSON.stringify\<close> on the reference platform writes the objects whose members are
  strings, which are the values \<open>encodeSyncToken\<close> passes to it; it has no rendering
  of numbers, and any other value is written as \<open>null\<close>.
\<close>

fun joinMembers :: "string list \<Rightarrow> string" where
  "joinMembers [] = []"
| "joinMembers [m] = m"
| "joinMembers (m # ms) = m @ '','' @ joinMembers ms"

definition stringifyMember :: "string \<times> JsonValue \<Rightarrow> string" where
  "stringifyMember m =
     quoteJSONString (fst m) @ '':'' @
       (case snd m of JString v \<Rightarrow> quoteJSONString v | _ \<Rightarrow> ''null'')"

definition stringifyObject :: "JsonValue \<Rightarrow> string" where
  "stringifyObject v =
     (case v of
        JObject props \<Rightarrow> ''{'' @ joinMembers (map stringifyMember props) @ ''}''
      | _ \<Rightarrow> ''null'')"

text \<open>
  \<open>JSON.parse\<close> follows the JSON grammar in two passes. The first pass cuts the text
  into tokens: the six punctuation marks and the scalar values, with white space
  between tokens dropped. \<open>parseStringChars\<close> reads a string after its opening quote
  and returns it with the rest of the text; it refuses an unescaped control character
  and an unknown escape, and reads the hexadecimal escape of a code unit from 256 on,
  which \<^typ>\<open>char\<close> does not have, as a question mark.
\<close>

definition unescape :: "char \<Rightarrow> char option" where
  "unescape e =
     (if e = CHR 0x22 then Some (CHR 0x22)
      else if e = CHR 0x5C then Some (CHR 0x5C)
      else if e = CHR ''/'' then Some (CHR ''/'')
      else if e = CHR ''b'' then Some (CHR 0x08)
      else if e = CHR ''f'' then Some (CHR 0x0C)
      else if e = CHR ''n'' then Some (CHR 0x0A)
      else if e = CHR ''r'' then Some (CHR 0x0D)
      else if e = CHR ''t'' then Some (CHR 0x09)
      else None)"

definition unicodeEscape :: "char \<Rightarrow> char \<Rightarrow> char \<Rightarrow> char \<Rightarrow> char option" where
  "unicodeEscape h1 h2 h3 h4 =
     (case (hexval h1, hexval h2, hexval h3, hexval h4) of
        (Some a, Some b, Some c, Some d) \<Rightarrow>
          Some (if a = 0 \<and> b = 0 then char_of (c * 16 + d) else CHR ''?'')
      | _ \<Rightarrow> None)"

definition consResult :: "char \<Rightarrow> (string \<times> string) option \<Rightarrow> (string \<times> string) option" where
  "consResult c r = (case r of None \<Rightarrow> None | Some (s, rest) \<Rightarrow> Some (c # s, rest))"

fun parseStringChars :: "string \<Rightarrow> (string \<times> string) option" where
  "parseStringChars [] = None"
| "parseStringChars (c # cs) =
     (if c = CHR 0x22 then Some ([], cs)
      else if c = CHR 0x5C then
        (case cs of
           [] \<Rightarrow> None
         | e # es \<Rightarrow>
             if e = CHR ''u'' then
               (case es of
                  h1 # h2 # h3 # h4 # rest \<Rightarrow>
                    (case unicodeEscape h1 h2 h3 h4 of
                       None \<Rightarrow> None
                     | Some u \<Rightarrow> consResult u (parseStringChars rest))
                | _ \<Rightarrow> None)
             else
               (case unescape e of
                  None \<Rightarrow> None
                | Some u \<Rightarrow> consResult u (parseStringChars es)))
      else if (of_char c :: nat) < 32 then None
      else consResult c (parseStringChars cs))"

text \<open>
  A number is an optional minus sign, an integer part without a leading zero, an
  optional fraction and an optional exponent.
\<close>

definition isDigit :: "char \<Rightarrow> bool" where
  "isDigit c \<longleftrightarrow> 48 \<le> (of_char c :: nat) \<and> (of_char c :: nat) \<le> 57"

definition digitsValue :: "string \<Rightarrow> nat" where
  "digitsValue ds = foldl (\<lambda>n c. 10 * n + ((of_char c :: nat) - 48)) 0 ds"

definition lexSign :: "string \<Rightarrow> bool \<times> string" where
  "lexSign s =
     (case s of
        [] \<Rightarrow> (False, [])
      | c # r \<Rightarrow> if c = CHR ''-'' then (True, r) else (False, s))"

definition lexFraction :: "string \<Rightarrow> (string \<times> string) option" where
  "lexFraction s =
     (case s of
        [] \<Rightarrow> Some ([], [])
      | c # r \<Rightarrow>
          if c = CHR ''.'' then
            (if takeWhile isDigit r = [] then None
             else Some (takeWhile isDigit r, dropWhile isDigit r))
          else Some ([], s))"

definition lexExponent :: "string \<Rightarrow> (int \<times> string) option" where
  "lexExponent s =
     (case s of
        [] \<Rightarrow> Some (0, [])
      | c # r \<Rightarrow>
          if c = CHR ''e'' \<or> c = CHR ''E'' then
            (let signed =
                   (case r of
                      [] \<Rightarrow> (False, [])
                    | d # r' \<Rightarrow>
                        if d = CHR ''-'' then (True, r')
                        else if d = CHR ''+'' then (False, r') else (False, r));
                 ds = takeWhile isDigit (snd signed)
             in if ds = [] then None
                else Some ((if fst signed then - int (digitsValue ds) else int (digitsValue ds)),
                           dropWhile isDigit (snd signed)))
          else Some (0, s))"

definition lexNumber :: "string \<Rightarrow> (JsonValue \<times> string) option" where
  "lexNumber s =
     (let signed = lexSign s;
          ip = takeWhile isDigit (snd signed)
      in if ip = [] \<or> (hd ip = CHR ''0'' \<and> tl ip \<noteq> []) then None
         else
           case lexFraction (dropWhile isDigit (snd signed)) of
             None \<Rightarrow> None
           | Some (fp, s2) \<Rightarrow>
               (case lexExponent s2 of
                  None \<Rightarrow> None
                | Some (ex, s3) \<Rightarrow>
                    Some (JNumber
                            (if fst signed then - int (digitsValue (ip @ fp))
                             else int (digitsValue (ip @ fp)))
                            (ex - int (length fp)),
                          s3)))"

definition lexLiteral :: "string \<Rightarrow> (JsonValue \<times> string) option" where
  "lexLiteral s =
     (if take 4 s = ''null'' then Some (JNull, drop 4 s)
      else if take 4 s = ''true'' then Some (JBool True, drop 4 s)
      else if take 5 s = ''false'' then Some (JBool False, drop 5 s)
      else None)"

definition lexString :: "string \<Rightarrow> (JsonValue \<times> string) option" where
  "lexString s =
     (case parseStringChars s of None \<Rightarrow> None | Some (x, rest) \<Rightarrow> Some (JString x, rest))"

text \<open>\<open>lexScalar\<close> reads the scalar value that starts a text.\<close>

definition lexScalar :: "string \<Rightarrow> (JsonValue \<times> string) option" where
  "lexScalar s =
     (case s of
        [] \<Rightarrow> None
      | c # r \<Rightarrow>
          if c = CHR 0x22 then lexString r
          else if c = CHR ''-'' \<or> isDigit c then lexNumber s
          else lexLiteral s)"

datatype Token =
    TLBrace | TRBrace | TLBracket | TRBracket | TColon | TComma
  | TScalar JsonValue

definition isWhitespace :: "char \<Rightarrow> bool" where
  "isWhitespace c \<longleftrightarrow> c = CHR 0x20 \<or> c = CHR 0x09 \<or> c = CHR 0x0A \<or> c = CHR 0x0D"

definition punctuation :: "char \<Rightarrow> Token option" where
  "punctuation c =
     (if c = CHR ''{'' then Some TLBrace
      else if c = CHR ''}'' then Some TRBrace
      else if c = CHR ''['' then Some TLBracket
      else if c = CHR '']'' then Some TRBracket
      else if c = CHR '':'' then Some TColon
      else if c = CHR '','' then Some TComma
      else None)"

definition consToken :: "Token \<Rightarrow> Token list option \<Rightarrow> Token list option" where
  "consToken t r = (case r of None \<Rightarrow> None | Some ts \<Rightarrow> Some (t # ts))"

lemma consResult_Some:
  "consResult c r = Some (s, rest) \<longleftrightarrow> (\<exists>s'. r = Some (s', rest) \<and> s = c # s')"
  by (auto simp: consResult_def split: option.splits)

lemma parseStringChars_length:
  "parseStringChars s = Some (x, rest) \<Longrightarrow> length rest < length s"
proof (induction s arbitrary: x rest rule: parseStringChars.induct)
  case 1
  then show ?case by simp
next
  case (2 c cs)
  show ?case
  proof (cases "c = CHR 0x22")
    case True
    with 2(4) show ?thesis by simp
  next
    case nq: False
    show ?thesis
    proof (cases "c = CHR 0x5C")
      case False
      with nq 2(4) have lt: "\<not> (of_char c :: nat) < 32"
        by (auto split: if_splits)
      with nq False 2(4) obtain s' where "parseStringChars cs = Some (s', rest)"
        by (auto simp: consResult_Some)
      from 2(3) [OF nq False lt this] show ?thesis by simp
    next
      case bs: True
      show ?thesis
      proof (cases cs)
        case Nil
        with nq bs 2(4) show ?thesis by simp
      next
        case (Cons e es)
        show ?thesis
        proof (cases "e = CHR ''u''")
          case False
          with nq bs Cons 2(4) obtain u s' where u: "unescape e = Some u"
            and r: "parseStringChars es = Some (s', rest)"
            by (auto simp: consResult_Some split: option.splits)
          from 2(2) [OF nq bs Cons False u r] Cons show ?thesis by simp
        next
          case True
          with nq bs Cons 2(4) obtain h1 h2 h3 h4 tl' u s' where es: "es = h1 # h2 # h3 # h4 # tl'"
            and u: "unicodeEscape h1 h2 h3 h4 = Some u"
            and r: "parseStringChars tl' = Some (s', rest)"
            by (auto simp: consResult_Some split: option.splits list.splits)
          from 2(1) [OF nq bs Cons True es refl refl refl u r] Cons es show ?thesis by simp
        qed
      qed
    qed
  qed
qed

lemma length_dropWhile_less:
  "takeWhile P s \<noteq> [] \<Longrightarrow> length (dropWhile P s) < length s"
  by (cases s) (auto simp: le_imp_less_Suc length_dropWhile_le split: if_splits)

lemma lexSign_length: "length (snd (lexSign s)) \<le> length s"
  by (simp add: lexSign_def split: list.splits)

lemma lexFraction_length: "lexFraction s = Some (fp, rest) \<Longrightarrow> length rest \<le> length s"
  by (auto simp: lexFraction_def le_SucI length_dropWhile_le split: list.splits if_splits)

lemma lexExponent_length: "lexExponent s = Some (ex, rest) \<Longrightarrow> length rest \<le> length s"
proof (cases s)
  case Nil
  assume "lexExponent s = Some (ex, rest)"
  with Nil show ?thesis by (simp add: lexExponent_def)
next
  case (Cons c r)
  assume a: "lexExponent s = Some (ex, rest)"
  show ?thesis
  proof (cases "c = CHR ''e'' \<or> c = CHR ''E''")
    case False
    with a Cons show ?thesis by (simp add: lexExponent_def)
  next
    case True
    define signed where "signed =
                   (case r of
                      [] \<Rightarrow> (False, [])
                    | d # r' \<Rightarrow>
                        if d = CHR ''-'' then (True, r')
                        else if d = CHR ''+'' then (False, r') else (False, r))"
    have "length (snd signed) \<le> length r"
      by (simp add: signed_def split: list.splits)
    moreover from a Cons True have "rest = dropWhile isDigit (snd signed)"
      by (simp add: lexExponent_def Let_def signed_def [symmetric] split: if_splits)
    ultimately have "length rest \<le> length r"
      using length_dropWhile_le [of isDigit "snd signed"] by simp
    with Cons show ?thesis by simp
  qed
qed

lemma lexNumber_length: "lexNumber s = Some (v, rest) \<Longrightarrow> length rest < length s"
proof -
  assume a: "lexNumber s = Some (v, rest)"
  define s1 where "s1 = snd (lexSign s)"
  from a have ip: "takeWhile isDigit s1 \<noteq> []"
    by (auto simp: lexNumber_def Let_def s1_def split: if_splits)
  with a obtain fp s2 ex where f: "lexFraction (dropWhile isDigit s1) = Some (fp, s2)"
    and e: "lexExponent s2 = Some (ex, rest)"
    by (auto simp: lexNumber_def Let_def s1_def split: if_splits option.splits)
  from lexExponent_length [OF e] lexFraction_length [OF f] length_dropWhile_less [OF ip]
    lexSign_length [of s]
  show ?thesis by (simp add: s1_def)
qed

lemma lexLiteral_length: "lexLiteral s = Some (v, rest) \<Longrightarrow> length rest < length s"
  by (cases s) (auto simp: lexLiteral_def split: if_splits)

lemma lexScalar_length: "lexScalar s = Some (v, rest) \<Longrightarrow> length rest < length s"
proof (cases s)
  case Nil
  assume "lexScalar s = Some (v, rest)"
  with Nil show ?thesis by (simp add: lexScalar_def)
next
  case (Cons c r)
  assume a: "lexScalar s = Some (v, rest)"
  show ?thesis
  proof (cases "c = CHR 0x22")
    case True
    with a Cons obtain x where "parseStringChars r = Some (x, rest)"
      by (auto simp: lexScalar_def lexString_def split: option.splits)
    from parseStringChars_length [OF this] Cons show ?thesis by simp
  next
    case False
    with a Cons have "lexNumber s = Some (v, rest) \<or> lexLiteral s = Some (v, rest)"
      by (auto simp: lexScalar_def split: if_splits)
    then show ?thesis
      using lexNumber_length lexLiteral_length by blast
  qed
qed

function tokenize :: "string \<Rightarrow> Token list option" where
  "tokenize s =
     (case s of
        [] \<Rightarrow> Some []
      | c # r \<Rightarrow>
          if isWhitespace c then tokenize r
          else
            case punctuation c of
              Some t \<Rightarrow> consToken t (tokenize r)
            | None \<Rightarrow>
                (case lexScalar s of
                   None \<Rightarrow> None
                 | Some (v, rest) \<Rightarrow> consToken (TScalar v) (tokenize rest)))"
  by pat_completeness auto
termination
  by (relation "measure length") (auto dest: lexScalar_length)

declare tokenize.simps [simp del]

text \<open>
  The second pass is a pushdown automaton over the tokens. A frame of the stack is an
  array or an object that waits for a value; the mode says what may come next. A
  member of an object replaces an earlier member of the same name in its place.
\<close>

datatype Frame =
    ArrayFrame "JsonValue list"
  | ObjectFrame "(string \<times> JsonValue) list" string

datatype Mode =
    WantValue
  | AfterOpenBracket
  | AfterOpenBrace
  | WantKey "(string \<times> JsonValue) list"
  | WantColon "(string \<times> JsonValue) list" string
  | HaveValue JsonValue

definition startValue :: "Frame list \<Rightarrow> Token \<Rightarrow> (Mode \<times> Frame list) option" where
  "startValue st t =
     (case t of
        TScalar v \<Rightarrow> Some (HaveValue v, st)
      | TLBracket \<Rightarrow> Some (AfterOpenBracket, st)
      | TLBrace \<Rightarrow> Some (AfterOpenBrace, st)
      | _ \<Rightarrow> None)"

definition startMember ::
  "(string \<times> JsonValue) list \<Rightarrow> Frame list \<Rightarrow> Token \<Rightarrow> (Mode \<times> Frame list) option" where
  "startMember ps st t =
     (case t of
        TScalar v \<Rightarrow> (case v of JString k \<Rightarrow> Some (WantColon ps k, st) | _ \<Rightarrow> None)
      | _ \<Rightarrow> None)"

definition step :: "Mode \<Rightarrow> Frame list \<Rightarrow> Token \<Rightarrow> (Mode \<times> Frame list) option" where
  "step m st t =
     (case m of
        WantValue \<Rightarrow> startValue st t
      | AfterOpenBracket \<Rightarrow>
          (case t of
             TRBracket \<Rightarrow> Some (HaveValue (JArray []), st)
           | _ \<Rightarrow> startValue (ArrayFrame [] # st) t)
      | AfterOpenBrace \<Rightarrow>
          (case t of
             TRBrace \<Rightarrow> Some (HaveValue (JObject []), st)
           | _ \<Rightarrow> startMember [] st t)
      | WantKey ps \<Rightarrow> startMember ps st t
      | WantColon ps k \<Rightarrow>
          (case t of TColon \<Rightarrow> Some (WantValue, ObjectFrame ps k # st) | _ \<Rightarrow> None)
      | HaveValue v \<Rightarrow>
          (case st of
             [] \<Rightarrow> None
           | ArrayFrame vs # st' \<Rightarrow>
               (case t of
                  TComma \<Rightarrow> Some (WantValue, ArrayFrame (vs @ [v]) # st')
                | TRBracket \<Rightarrow> Some (HaveValue (JArray (vs @ [v])), st')
                | _ \<Rightarrow> None)
           | ObjectFrame ps k # st' \<Rightarrow>
               (case t of
                  TComma \<Rightarrow> Some (WantKey (AList.update k v ps), st')
                | TRBrace \<Rightarrow> Some (HaveValue (JObject (AList.update k v ps)), st')
                | _ \<Rightarrow> None)))"

fun parseTokens :: "Mode \<Rightarrow> Frame list \<Rightarrow> Token list \<Rightarrow> JsonValue option" where
  "parseTokens m st [] =
     (case m of HaveValue v \<Rightarrow> (if st = [] then Some v else None) | _ \<Rightarrow> None)"
| "parseTokens m st (t # ts) =
     (case step m st t of None \<Rightarrow> None | Some (m', st') \<Rightarrow> parseTokens m' st' ts)"

definition parseJSON :: "string \<Rightarrow> JsonValue option" where
  "parseJSON s = (case tokenize s of None \<Rightarrow> None | Some ts \<Rightarrow> parseTokens WantValue [] ts)"

text \<open>The platform of the server, where \<open>Buffer\<close> exists.\<close>

definition reference_platform :: Platform where
  "reference_platform =
     \<lparr>hasBuffer = True,
      JSON_stringify = stringifyObject,
      JSON_parse = parseJSON,
      Buffer_utf8_to_base64 = (\<lambda>s. base64_encode (utf8_encode s)),
      Buffer_base64_to_utf8 = (\<lambda>t. utf8_decode (base64_decode t)),
      btoa = (\<lambda>s. Some (base64_encode s)),
      atob = reference_atob\<rparr>"

text \<open>The same platform without \<open>Buffer\<close>, as a browser is.\<close>

definition browser_platform :: Platform where
  "browser_platform = reference_platform\<lparr>hasBuffer := False\<rparr>"

subsection \<open>Example requests\<close>

definition sync_store :: Store where
  "sync_store =
     createList cursor_store
       \<lparr>list_id = ''list-1'', joinKey = ''key-1'', list_createdAt = ''2025-01-01T00:00:00.000Z''\<rparr>"

definition example_payload :: SyncTokenPayload where
  "example_payload = \<lparr>lastUpdatedAt = ''2025-01-01T00:00:00.001Z'', lastId = Some ''c''\<rparr>"

definition example_payload_without_id :: SyncTokenPayload where
  "example_payload_without_id = \<lparr>lastUpdatedAt = ''2025-01-01T00:00:00.001Z'', lastId = None\<rparr>"

section \<open>Verified properties\<close>

subsection \<open>Monotonic timestamps\<close>
















lemma length_pad [simp]: "length (pad w n) = w"
  by (induction w arbitrary: n) simp_all


























subsection \<open>The first call of the year 10000\<close>








subsection \<open>State machine\<close>

text \<open>
  C4. \<open>isValidTransition from to\<close> holds exactly for the four pairs
  (TODO, ONGOING), (ONGOING, TODO), (ONGOING, DONE) and (DONE, ONGOING); every other
  pair, including each self-transition and both directions between TODO and DONE, is
  rejected.
\<close>

theorem isValidTransition_edges:
  "isValidTransition from to =
     ((from, to) \<in> {(TODO, ONGOING), (ONGOING, TODO), (ONGOING, DONE), (DONE, ONGOING)})"
  by (cases "from"; cases to) (simp_all add: isValidTransition_def)

subsection \<open>Compare-and-swap\<close>

text \<open>
  C1. \<open>compareAndSwapTodo\<close> answers not-found when no todo is stored under the id;
  on a version mismatch it answers a conflict carrying the stored todo and leaves the
  store as it was; on a match it overwrites exactly the fields present in the updates,
  sets the version to \<open>expectedVersion + 1\<close>, stores the result under the same id, and
  returns it.
\<close>

theorem compareAndSwapTodo_outcomes:
  "(todos s i = None \<longrightarrow> compareAndSwapTodo s i ev u = (NotFound, s)) \<and>
   (\<forall>t. todos s i = Some t \<and> version t \<noteq> ev \<longrightarrow>
      compareAndSwapTodo s i ev u = (Conflict t, s)) \<and>
   (\<forall>t. todos s i = Some t \<and> version t = ev \<longrightarrow>
      (\<exists>t'. compareAndSwapTodo s i ev u = (Success t', s\<lparr>todos := (todos s)(i \<mapsto> t')\<rparr>) \<and>
         version t' = ev + 1 \<and>
         todoId t' = todoId t \<and> listId t' = listId t \<and>
         createdBy t' = createdBy t \<and> createdAt t' = createdAt t \<and>
         title t' = (case u_title u of None \<Rightarrow> title t | Some x \<Rightarrow> x) \<and>
         state t' = (case u_state u of None \<Rightarrow> state t | Some x \<Rightarrow> x) \<and>
         updatedAt t' = (case u_updatedAt u of None \<Rightarrow> updatedAt t | Some x \<Rightarrow> x) \<and>
         deletedAt t' = (case u_deletedAt u of None \<Rightarrow> deletedAt t | Some x \<Rightarrow> x)))"
  by (simp add: compareAndSwapTodo_def object_assign_def Let_def)

theorem compareAndSwapTodo_outcomes_witness:
  "todos example_store ''nonexistent'' = None \<and>
   compareAndSwapTodo example_store ''nonexistent'' 1 example_updates
     = (NotFound, example_store) \<and>
   todos example_store ''todo-1'' = Some example_todo \<and> version example_todo \<noteq> 1 \<and>
   compareAndSwapTodo example_store ''todo-1'' 1 example_updates
     = (Conflict example_todo, example_store) \<and>
   version example_todo = 2 \<and>
   (\<exists>t'. compareAndSwapTodo example_store ''todo-1'' 2 example_updates
           = (Success t', example_store\<lparr>todos := (todos example_store)(''todo-1'' \<mapsto> t')\<rparr>) \<and>
         version t' = 3 \<and> state t' = ONGOING \<and> title t' = ''Test'' \<and>
         updatedAt t' = ''2025-01-01T00:00:01.000Z'')"
proof -
  have a: "todos example_store ''nonexistent'' = None"
    by (simp add: example_store_def createTodo_def emptyStore_def example_todo_def)
  have b: "todos example_store ''todo-1'' = Some example_todo"
    by (simp add: example_store_def createTodo_def emptyStore_def example_todo_def)
  have c: "version example_todo = 2"
    by (simp add: example_todo_def)
  have t: "title example_todo = ''Test''"
    by (simp add: example_todo_def)
  show ?thesis
    using compareAndSwapTodo_outcomes [of example_store "''nonexistent''" 1 example_updates]
      compareAndSwapTodo_outcomes [of example_store "''todo-1''" 1 example_updates]
      compareAndSwapTodo_outcomes [of example_store "''todo-1''" 2 example_updates]
      a b c t
    by (auto simp: example_updates_def)
qed

subsection \<open>Delta listing\<close>

lemma store_wf_empty: "store_wf emptyStore"
  by (simp add: store_wf_def emptyStore_def)

lemma set_set_add: "set (set_add i ids) = insert i (set ids)"
  by (auto simp: set_add_def)

lemma distinct_set_add: "distinct ids \<Longrightarrow> distinct (set_add i ids)"
  by (auto simp: set_add_def)

lemma store_wf_createTodo:
  assumes wf: "store_wf s" and fresh: "todos s (todoId t) = None"
  shows "store_wf (createTodo s t)"
proof -
  let ?s = "createTodo s t"
  let ?old = "case todosByList s (listId t) of None \<Rightarrow> [] | Some ids \<Rightarrow> ids"
  have todos': "todos ?s = (todos s)(todoId t \<mapsto> t)"
    by (simp add: createTodo_def)
  have idx': "todosByList ?s = (todosByList s)(listId t \<mapsto> set_add (todoId t) ?old)"
    by (simp add: createTodo_def)
  have old: "distinct ?old \<and> (\<forall>i \<in> set ?old. \<exists>t0. todos s i = Some t0 \<and> listId t0 = listId t)"
  proof (cases "todosByList s (listId t)")
    case None
    then show ?thesis by simp
  next
    case (Some ids)
    with wf show ?thesis unfolding store_wf_def by simp
  qed
  then have old_distinct: "distinct ?old"
    and old_members: "\<forall>i \<in> set ?old. \<exists>t0. todos s i = Some t0 \<and> listId t0 = listId t"
    by blast+
  have A: "todoId t' = i \<and> (\<exists>ids. todosByList ?s (listId t') = Some ids \<and> i \<in> set ids)"
    if "todos ?s i = Some t'" for i t'
  proof (cases "i = todoId t")
    case True
    with that todos' have "t' = t" by simp
    with True idx' show ?thesis by (simp add: set_set_add)
  next
    case False
    with that todos' have old: "todos s i = Some t'" by simp
    with wf obtain ids where ids: "todoId t' = i" "todosByList s (listId t') = Some ids" "i \<in> set ids"
      unfolding store_wf_def by blast
    show ?thesis
    proof (cases "listId t' = listId t")
      case True
      with ids idx' show ?thesis by (simp add: set_set_add)
    next
      case False
      with ids idx' show ?thesis by simp
    qed
  qed
  have B: "distinct ids \<and> (\<forall>i \<in> set ids. \<exists>t0. todos ?s i = Some t0 \<and> listId t0 = l)"
    if "todosByList ?s l = Some ids" for l ids
  proof (cases "l = listId t")
    case True
    with that idx' have ids: "ids = set_add (todoId t) ?old" by simp
    have "\<exists>t0. todos ?s i = Some t0 \<and> listId t0 = l" if "i \<in> set ids" for i
    proof (cases "i = todoId t")
      case True
      with todos' \<open>l = listId t\<close> show ?thesis by simp
    next
      case False
      with that ids have "i \<in> set ?old" by (simp add: set_set_add)
      with old_members obtain t0 where "todos s i = Some t0" "listId t0 = listId t" by blast
      with False todos' \<open>l = listId t\<close> show ?thesis by simp
    qed
    with ids old_distinct show ?thesis by (simp add: distinct_set_add)
  next
    case False
    with that idx' have old: "todosByList s l = Some ids" by simp
    with wf have d: "distinct ids" and m: "\<forall>i \<in> set ids. \<exists>t0. todos s i = Some t0 \<and> listId t0 = l"
      unfolding store_wf_def by blast+
    have "\<exists>t0. todos ?s i = Some t0 \<and> listId t0 = l" if "i \<in> set ids" for i
    proof -
      from m that obtain t0 where t0: "todos s i = Some t0" "listId t0 = l" by blast
      with fresh have "i \<noteq> todoId t" by auto
      with t0 todos' show ?thesis by simp
    qed
    with d show ?thesis by simp
  qed
  show ?thesis
    unfolding store_wf_def
  proof (rule conjI; intro allI impI)
    fix i t' assume "todos ?s i = Some t'"
    then show "todoId t' = i \<and> (\<exists>ids. todosByList ?s (listId t') = Some ids \<and> i \<in> set ids)"
      by (rule A)
  next
    fix l ids assume "todosByList ?s l = Some ids"
    then show "distinct ids \<and> (\<forall>i \<in> set ids. \<exists>t0. todos ?s i = Some t0 \<and> listId t0 = l)"
      by (rule B)
  qed
qed

lemma store_wf_cas:
  assumes wf: "store_wf s"
  shows "store_wf (snd (compareAndSwapTodo s i ev u))"
proof (cases "todos s i")
  case None
  with wf show ?thesis by (simp add: compareAndSwapTodo_def)
next
  case (Some t)
  show ?thesis
  proof (cases "version t = ev")
    case False
    with Some wf show ?thesis by (simp add: compareAndSwapTodo_def)
  next
    case True
    define t' where "t' = (object_assign t u)\<lparr>version := ev + 1\<rparr>"
    have same: "todoId t' = todoId t" "listId t' = listId t"
      by (simp_all add: t'_def object_assign_def)
    have res: "snd (compareAndSwapTodo s i ev u) = s\<lparr>todos := (todos s)(i \<mapsto> t')\<rparr>"
      using Some True by (simp add: compareAndSwapTodo_def t'_def Let_def)
    from wf Some have ti: "todoId t = i" unfolding store_wf_def by blast
    show ?thesis
      unfolding res store_wf_def
    proof (rule conjI; intro allI impI)
      fix j x assume "todos (s\<lparr>todos := (todos s)(i \<mapsto> t')\<rparr>) j = Some x"
      then have c: "(j = i \<and> x = t') \<or> (j \<noteq> i \<and> todos s j = Some x)"
        by (auto split: if_splits)
      from wf Some have "\<exists>ids. todosByList s (listId t) = Some ids \<and> i \<in> set ids"
        unfolding store_wf_def by blast
      with same ti have new: "todoId t' = i \<and> (\<exists>ids. todosByList s (listId t') = Some ids \<and> i \<in> set ids)"
        by simp
      have other: "todos s j = Some x \<Longrightarrow>
          todoId x = j \<and> (\<exists>ids. todosByList s (listId x) = Some ids \<and> j \<in> set ids)"
        using wf unfolding store_wf_def by blast
      from c new other show "todoId x = j \<and>
          (\<exists>ids. todosByList (s\<lparr>todos := (todos s)(i \<mapsto> t')\<rparr>) (listId x) = Some ids \<and> j \<in> set ids)"
        by auto
    next
      fix l ids assume "todosByList (s\<lparr>todos := (todos s)(i \<mapsto> t')\<rparr>) l = Some ids"
      then have old: "todosByList s l = Some ids" by simp
      with wf have d: "distinct ids" unfolding store_wf_def by blast
      from wf old have m: "\<forall>j \<in> set ids. \<exists>t0. todos s j = Some t0 \<and> listId t0 = l"
        unfolding store_wf_def by blast
      have "\<forall>j\<in>set ids. \<exists>t0. todos (s\<lparr>todos := (todos s)(i \<mapsto> t')\<rparr>) j = Some t0 \<and> listId t0 = l"
      proof
        fix j assume "j \<in> set ids"
        with m obtain t0 where t0: "todos s j = Some t0" "listId t0 = l" by blast
        show "\<exists>t0. todos (s\<lparr>todos := (todos s)(i \<mapsto> t')\<rparr>) j = Some t0 \<and> listId t0 = l"
          using t0 Some same by (cases "j = i") auto
      qed
      with d show "distinct ids \<and>
        (\<forall>j\<in>set ids. \<exists>t0. todos (s\<lparr>todos := (todos s)(i \<mapsto> t')\<rparr>) j = Some t0 \<and> listId t0 = l)"
        by simp
    qed
  qed
qed

lemma set_insort_cmp: "set (insort_cmp cmp x xs) = insert x (set xs)"
  by (induction xs) auto

lemma set_array_sort: "set (array_sort cmp xs) = set xs"
  by (induction xs) (auto simp: array_sort_def set_insort_cmp)

lemma cmp_le: "compareByUpdatedAt a b \<le> 0 \<longleftrightarrow> sortKey a \<le> sortKey b"
  by (auto simp: compareByUpdatedAt_def sortKey_def)

lemma sorted_insort_cmp:
  "sorted_wrt (\<lambda>a b. sortKey a \<le> sortKey b) xs \<Longrightarrow>
   sorted_wrt (\<lambda>a b. sortKey a \<le> sortKey b) (insort_cmp compareByUpdatedAt x xs)"
  by (induction xs) (auto simp: set_insort_cmp cmp_le)

lemma sorted_array_sort:
  "sorted_wrt (\<lambda>a b. sortKey a \<le> sortKey b) (array_sort compareByUpdatedAt xs)"
  by (induction xs) (auto simp: array_sort_def sorted_insort_cmp)

lemma set_collectTodos:
  "set (collectTodos s c ids acc) =
     set acc \<union> {t. \<exists>i \<in> set ids. todos s i = Some t \<and> passesCursor c t}"
  by (induction ids arbitrary: acc) (auto split: option.splits)


lemma distinct_insort_cmp:
  "distinct (map f (insort_cmp cmp x xs)) = distinct (map f (x # xs))"
  by (induction xs) (auto simp: set_insort_cmp)

lemma distinct_array_sort:
  "distinct (map f (array_sort cmp xs)) = distinct (map f xs)"
  by (induction xs) (auto simp: array_sort_def distinct_insort_cmp set_array_sort [unfolded array_sort_def])

lemma map_todoId_collectTodos:
  assumes "\<forall>i t. todos s i = Some t \<longrightarrow> todoId t = i"
  shows "map todoId (collectTodos s c ids acc) =
           map todoId acc @ filter (\<lambda>i. \<exists>t. todos s i = Some t \<and> passesCursor c t) ids"
  using assms by (induction ids arbitrary: acc) (auto split: option.splits)

lemma strict_sorted_keys:
  "sorted_wrt (\<lambda>a b. sortKey a \<le> sortKey b) xs \<Longrightarrow> distinct (map todoId xs) \<Longrightarrow>
   sorted_wrt (\<lambda>a b. sortKey a < sortKey b) xs"
  by (induction xs) (auto simp: sortKey_def less_le)

lemma getTodosForList_sorted:
  assumes wf: "store_wf s"
  shows "sorted_wrt (\<lambda>a b. sortKey a < sortKey b) (getTodosForList s l c)"
proof (cases "todosByList s l")
  case None
  then show ?thesis by (simp add: getTodosForList_def)
next
  case (Some ids)
  from wf have key: "\<forall>i t. todos s i = Some t \<longrightarrow> todoId t = i"
    unfolding store_wf_def by blast
  from wf Some have "distinct ids" unfolding store_wf_def by blast
  then have "distinct (map todoId (collectTodos s c ids []))"
    by (simp add: map_todoId_collectTodos [OF key])
  then have "distinct (map todoId (getTodosForList s l c))"
    using Some by (simp add: getTodosForList_def distinct_array_sort)
  moreover have "sorted_wrt (\<lambda>a b. sortKey a \<le> sortKey b) (getTodosForList s l c)"
    using Some by (simp add: getTodosForList_def sorted_array_sort)
  ultimately show ?thesis by (rule strict_sorted_keys [rotated])
qed

lemma getTodosForList_set:
  assumes wf: "store_wf s"
  shows "set (getTodosForList s l c) = {t \<in> ran (todos s). listId t = l \<and> passesCursor c t}"
proof (cases "todosByList s l")
  case None
  have "listId t \<noteq> l" if "t \<in> ran (todos s)" for t
  proof -
    from that obtain i where "todos s i = Some t" by (auto simp: ran_def)
    with wf obtain ids where "todosByList s (listId t) = Some ids"
      unfolding store_wf_def by blast
    with None show ?thesis by auto
  qed
  with None show ?thesis by (auto simp: getTodosForList_def)
next
  case (Some ids)
  have "(\<exists>i \<in> set ids. todos s i = Some t) \<longleftrightarrow> (t \<in> ran (todos s) \<and> listId t = l)" for t
  proof
    assume "\<exists>i \<in> set ids. todos s i = Some t"
    then obtain i where i: "i \<in> set ids" "todos s i = Some t" by blast
    with wf Some have "\<exists>t0. todos s i = Some t0 \<and> listId t0 = l"
      unfolding store_wf_def by blast
    with i show "t \<in> ran (todos s) \<and> listId t = l" by (auto simp: ran_def)
  next
    assume a: "t \<in> ran (todos s) \<and> listId t = l"
    then obtain i where i: "todos s i = Some t" by (auto simp: ran_def)
    with wf obtain ids' where "todosByList s (listId t) = Some ids'" "i \<in> set ids'"
      unfolding store_wf_def by blast
    with a Some i show "\<exists>i \<in> set ids. todos s i = Some t" by auto
  qed
  then have "{t. \<exists>i \<in> set ids. todos s i = Some t \<and> passesCursor c t}
      = {t \<in> ran (todos s). listId t = l \<and> passesCursor c t}"
    by blast
  with Some show ?thesis
    by (simp add: getTodosForList_def set_array_sort set_collectTodos)
qed

lemma passesCursor_absent:
  "Option.bind c a_updatedAt = None \<Longrightarrow> passesCursor c t"
  by (simp add: passesCursor_def)

lemma nil_less_string: "x \<noteq> [] \<Longrightarrow> [] < (x::string)"
  by (cases x) simp_all

lemma passesCursor_position:
  assumes "u \<noteq> [] \<or> updatedAt t \<noteq> []"
  shows "passesCursor (Some \<lparr>a_updatedAt = Some u, a_todoId = j\<rparr>) t
           \<longleftrightarrow> (u, case j of None \<Rightarrow> [] | Some i \<Rightarrow> i) < (updatedAt t, todoId t)"
  using assms
  by (cases j) (auto simp: passesCursor_def isTodoAfterCursor_def nullish_or_def nil_less_string)

text \<open>
  C3. On a consistent store, \<open>getTodosForList\<close> returns exactly the todos of the
  list when no cursor position is given, and exactly the todos of the list whose key
  \<open>(updatedAt, id)\<close> is strictly greater than the cursor \<open>(u, i)\<close> otherwise (a
  cursor without an id counts as \<open>u\<close> with the empty id); the result is strictly
  ascending in \<open>(updatedAt, id)\<close>. No condition is placed on \<open>deletedAt\<close>:
  soft-deleted todos are listed like the others. The cursor clauses hold for every
  cursor with a non-empty \<open>updatedAt\<close>, and for every cursor at all when no stored
  todo has an empty \<open>updatedAt\<close>.
\<close>

theorem getTodosForList_spec:
  assumes wf: "store_wf s"
  shows
    "(\<forall>c :: CursorArg option. Option.bind c a_updatedAt = None \<longrightarrow>
        set (getTodosForList s l c) = {t \<in> ran (todos s). listId t = l}) \<and>
     (\<forall>u i. u \<noteq> [] \<or> (\<forall>t \<in> ran (todos s). updatedAt t \<noteq> []) \<longrightarrow>
        set (getTodosForList s l (Some \<lparr>a_updatedAt = Some u, a_todoId = Some i\<rparr>))
          = {t \<in> ran (todos s). listId t = l \<and> (u, i) < (updatedAt t, todoId t)}) \<and>
     (\<forall>u. u \<noteq> [] \<or> (\<forall>t \<in> ran (todos s). updatedAt t \<noteq> []) \<longrightarrow>
        set (getTodosForList s l (Some \<lparr>a_updatedAt = Some u, a_todoId = None\<rparr>))
          = {t \<in> ran (todos s). listId t = l \<and> (u, []) < (updatedAt t, todoId t)}) \<and>
     (\<forall>c. sorted_wrt (\<lambda>a b. (updatedAt a, todoId a) < (updatedAt b, todoId b))
            (getTodosForList s l c))"
proof (intro conjI allI impI)
  fix c :: "CursorArg option" assume "Option.bind c a_updatedAt = None"
  then show "set (getTodosForList s l c) = {t \<in> ran (todos s). listId t = l}"
    by (simp add: getTodosForList_set [OF wf] passesCursor_absent)
next
  fix u i :: string assume "u \<noteq> [] \<or> (\<forall>t \<in> ran (todos s). updatedAt t \<noteq> [])"
  then have "\<forall>t \<in> ran (todos s). u \<noteq> [] \<or> updatedAt t \<noteq> []" by blast
  then show "set (getTodosForList s l (Some \<lparr>a_updatedAt = Some u, a_todoId = Some i\<rparr>))
          = {t \<in> ran (todos s). listId t = l \<and> (u, i) < (updatedAt t, todoId t)}"
    unfolding getTodosForList_set [OF wf]
    using passesCursor_position [of u _ "Some i"] by auto
next
  fix u :: string assume "u \<noteq> [] \<or> (\<forall>t \<in> ran (todos s). updatedAt t \<noteq> [])"
  then have "\<forall>t \<in> ran (todos s). u \<noteq> [] \<or> updatedAt t \<noteq> []" by blast
  then show "set (getTodosForList s l (Some \<lparr>a_updatedAt = Some u, a_todoId = None\<rparr>))
          = {t \<in> ran (todos s). listId t = l \<and> (u, []) < (updatedAt t, todoId t)}"
    unfolding getTodosForList_set [OF wf]
    using passesCursor_position [of u _ None] by auto
next
  fix c
  show "sorted_wrt (\<lambda>a b. (updatedAt a, todoId a) < (updatedAt b, todoId b))
            (getTodosForList s l c)"
    using getTodosForList_sorted [OF wf, of l c] by (simp add: sortKey_def)
qed

lemma store_wf_cursor_store: "store_wf cursor_store"
  unfolding cursor_store_def
  by (intro store_wf_createTodo store_wf_empty)
     (simp_all add: createTodo_def emptyStore_def todo_a_def todo_b_def todo_c_def)

lemma getTodosForList_cursor_store:
  "getTodosForList cursor_store ''list-1'' None = [todo_a, todo_b, todo_c]"
  "getTodosForList cursor_store ''list-1'' (Some cursor_after_a) = [todo_b, todo_c]"
  by (simp_all add: getTodosForList_def cursor_store_def createTodo_def emptyStore_def
      set_add_def array_sort_def compareByUpdatedAt_def passesCursor_def
      isTodoAfterCursor_def nullish_or_def cursor_after_a_def
      todo_a_def todo_b_def todo_c_def)

theorem getTodosForList_spec_witness:
  "store_wf cursor_store \<and>
   set (getTodosForList cursor_store ''list-1'' None)
     = {t \<in> ran (todos cursor_store). listId t = ''list-1''} \<and>
   getTodosForList cursor_store ''list-1'' None = [todo_a, todo_b, todo_c] \<and>
   ''2025-01-01T00:00:00.000Z'' \<noteq> [] \<and>
   set (getTodosForList cursor_store ''list-1'' (Some cursor_after_a))
     = {t \<in> ran (todos cursor_store). listId t = ''list-1'' \<and>
          (''2025-01-01T00:00:00.000Z'', ''a'') < (updatedAt t, todoId t)} \<and>
   getTodosForList cursor_store ''list-1'' (Some cursor_after_a) = [todo_b, todo_c] \<and>
   deletedAt todo_c \<noteq> None \<and>
   sorted_wrt (\<lambda>a b. (updatedAt a, todoId a) < (updatedAt b, todoId b))
     (getTodosForList cursor_store ''list-1'' (Some cursor_after_a))"
proof -
  note spec = getTodosForList_spec [OF store_wf_cursor_store, of "''list-1''"]
  have ne: "''2025-01-01T00:00:00.000Z'' \<noteq> []"
    by simp
  from spec have a: "set (getTodosForList cursor_store ''list-1'' None)
       = {t \<in> ran (todos cursor_store). listId t = ''list-1''}"
    by simp
  from spec ne have b: "set (getTodosForList cursor_store ''list-1'' (Some cursor_after_a))
       = {t \<in> ran (todos cursor_store). listId t = ''list-1'' \<and>
            (''2025-01-01T00:00:00.000Z'', ''a'') < (updatedAt t, todoId t)}"
    unfolding cursor_after_a_def by blast
  from spec have c: "sorted_wrt (\<lambda>a b. (updatedAt a, todoId a) < (updatedAt b, todoId b))
       (getTodosForList cursor_store ''list-1'' (Some cursor_after_a))"
    by blast
  have d: "deletedAt todo_c \<noteq> None"
    by (simp add: todo_c_def)
  from store_wf_cursor_store a getTodosForList_cursor_store(1) ne b
    getTodosForList_cursor_store(2) d c
  show ?thesis by (intro conjI)
qed

subsection \<open>Merge algorithm\<close>

lemma getServerTodo_setServerTodo:
  "getServerTodo (setServerTodo st todo) j =
     (if j = todoId todo then Some todo else getServerTodo st j)"
  by (simp add: getServerTodo_def setServerTodo_def update_conv')

lemma mergeServerState_append:
  "mergeServerState dp opt st (xs @ ys) = mergeServerState dp opt (mergeServerState dp opt st xs) ys"
  by (induction xs arbitrary: st) simp_all

lemma todoToStore_fields:
  "version (todoToStore t p) = version t" "updatedAt (todoToStore t p) = updatedAt t"
  "todoId (todoToStore t p) = todoId t"
  "\<exists>c. todoToStore t p = t\<lparr>createdAt := c\<rparr>"
     apply (auto simp: todoToStore_def split: option.splits)
  by (metis Todo.surjective Todo.update_convs(6))+

lemma mergeIncoming_other:
  "j \<noteq> todoId t \<Longrightarrow> getServerTodo (mergeIncoming dp opt st t) j = getServerTodo st j"
  by (auto simp: mergeIncoming_def updateServerStateEntry_def Let_def getServerTodo_setServerTodo
      todoToStore_fields split: option.splits)

text \<open>
  C5. For every incoming todo \<open>t\<close> of a batch, let \<open>st0\<close> be the cache when the merge
  loop reaches \<open>t\<close> and \<open>st1\<close> the cache after it. When no todo is cached under the
  id of \<open>t\<close>, or the cached version is smaller, or the versions are equal and both
  \<open>updatedAt\<close> values are times with that of \<open>t\<close> not before the cached one, the cache
  then holds \<open>t\<close> under its id (with the creation time that the merge keeps). In
  every other case the cache is unchanged. Entries under other ids are never touched.
\<close>

theorem mergeIncoming_supersedes:
  "let st0 = mergeServerState dp opt st pre;
       st1 = mergeServerState dp opt st (pre @ [t]);
       wins = (getServerTodo st0 (todoId t) = None \<or>
               (\<exists>e. getServerTodo st0 (todoId t) = Some e \<and>
                  (version e < version t \<or>
                   (version t = version e \<and>
                    (\<exists>x y. dp (updatedAt t) = Some x \<and> dp (updatedAt e) = Some y \<and> y \<le> x)))))
   in (wins \<longrightarrow> (\<exists>c. getServerTodo st1 (todoId t) = Some (t\<lparr>createdAt := c\<rparr>))) \<and>
      (\<not> wins \<longrightarrow> st1 = st0) \<and>
      (\<forall>j. j \<noteq> todoId t \<longrightarrow> getServerTodo st1 j = getServerTodo st0 j)"
proof -
  define st0 where "st0 = mergeServerState dp opt st pre"
  define p where "p = (case getServerTodo st0 (todoId t) of Some e \<Rightarrow> Some (createdAt e) | None \<Rightarrow> opt (todoId t))"
  have st1: "mergeServerState dp opt st (pre @ [t]) = mergeIncoming dp opt st0 t"
    by (simp add: mergeServerState_append st0_def)
  have step: "mergeIncoming dp opt st0 t =
      (if isNewerThan dp (todoToStore t p) (getServerTodo st0 (todoId t))
       then setServerTodo st0 (todoToStore t p) else st0)"
    by (simp add: mergeIncoming_def updateServerStateEntry_def Let_def p_def)
  have newer: "isNewerThan dp (todoToStore t p) (getServerTodo st0 (todoId t)) \<longleftrightarrow>
      (getServerTodo st0 (todoId t) = None \<or>
               (\<exists>e. getServerTodo st0 (todoId t) = Some e \<and>
                  (version e < version t \<or>
                   (version t = version e \<and>
                    (\<exists>x y. dp (updatedAt t) = Some x \<and> dp (updatedAt e) = Some y \<and> y \<le> x)))))"
    by (auto simp: isNewerThan_def todoToStore_fields date_ge_def split: option.splits)
  obtain c where c: "todoToStore t p = t\<lparr>createdAt := c\<rparr>"
    using todoToStore_fields(4) by blast
  show ?thesis
    unfolding Let_def st1 st0_def [symmetric] newer [symmetric]
    by (auto simp: step getServerTodo_setServerTodo todoToStore_fields c)
qed


theorem mergeIncoming_supersedes_witness:
  "getServerTodo merge_state (todoId merge_later) = Some merge_earlier \<and>
   version merge_later = version merge_earlier \<and>
   example_dp (updatedAt merge_later) = Some 1704070800000 \<and>
   example_dp (updatedAt merge_earlier) = Some 1704067200000 \<and>
   (\<exists>c. getServerTodo (mergeServerState example_dp Map.empty merge_state [merge_later]) ''todo-1''
          = Some (merge_later\<lparr>createdAt := c\<rparr>)) \<and>
   getServerTodo (mergeServerState example_dp Map.empty merge_state [merge_later]) ''todo-1''
     = Some merge_later \<and>
   version merge_old < version merge_earlier \<and>
   mergeServerState example_dp Map.empty merge_state [merge_old] = merge_state"
proof -
  have a: "getServerTodo merge_state ''todo-1'' = Some merge_earlier"
    by (simp add: merge_state_def getServerTodo_setServerTodo merge_earlier_def merge_todo_def)
  have ids: "todoId merge_later = ''todo-1''" "todoId merge_old = ''todo-1''"
    by (simp_all add: merge_later_def merge_old_def merge_todo_def)
  have v: "version merge_later = version merge_earlier" "version merge_old < version merge_earlier"
    by (simp_all add: merge_later_def merge_earlier_def merge_old_def merge_todo_def)
  have dp: "example_dp (updatedAt merge_later) = Some 1704070800000"
    "example_dp (updatedAt merge_earlier) = Some 1704067200000"
    by (simp_all add: example_dp_def merge_later_def merge_earlier_def merge_todo_def)
  from mergeIncoming_supersedes [of example_dp Map.empty merge_state "[]" merge_later] a ids v dp
  have 1: "\<exists>c. getServerTodo (mergeServerState example_dp Map.empty merge_state [merge_later])
      ''todo-1'' = Some (merge_later\<lparr>createdAt := c\<rparr>)"
    by (auto simp: Let_def)
  have 2: "getServerTodo (mergeServerState example_dp Map.empty merge_state [merge_later]) ''todo-1''
      = Some merge_later"
    by (simp add: mergeIncoming_def updateServerStateEntry_def todoToStore_def isNewerThan_def
        date_ge_def a ids v getServerTodo_setServerTodo merge_later_def merge_earlier_def
        merge_todo_def example_dp_def)
  from mergeIncoming_supersedes [of example_dp Map.empty merge_state "[]" merge_old] a ids v
  have 3: "mergeServerState example_dp Map.empty merge_state [merge_old] = merge_state"
    by (auto simp: Let_def)
  from a ids(1) have a': "getServerTodo merge_state (todoId merge_later) = Some merge_earlier"
    by simp
  from a' v(1) dp 1 2 v(2) 3 show ?thesis by (intro conjI)
qed

lemma optimisticCreatedAtById_unique:
  assumes "\<forall>o' \<in> set local. isOptimisticTodo o' \<and> todoId o' = i \<longrightarrow> createdAt o' = c"
      and "(\<exists>o' \<in> set local. isOptimisticTodo o' \<and> todoId o' = i) \<or> m i = Some c"
  shows "optimisticCreatedAtById local m i = Some c"
  using assms
proof (induction local arbitrary: m)
  case Nil
  then show ?case by simp
next
  case (Cons x xs)
  let ?m = "if isOptimisticTodo x then m(todoId x \<mapsto> createdAt x) else m"
  have u: "\<forall>o' \<in> set xs. isOptimisticTodo o' \<and> todoId o' = i \<longrightarrow> createdAt o' = c"
    using Cons.prems(1) by simp
  have "(\<exists>o' \<in> set xs. isOptimisticTodo o' \<and> todoId o' = i) \<or> ?m i = Some c"
    using Cons.prems by auto
  from Cons.IH [of ?m, OF u this] show ?case by simp
qed

lemma todoToStore_Some:
  "c \<noteq> [] \<Longrightarrow> todoToStore t (Some c) = t\<lparr>createdAt := c\<rparr>"
  by (simp add: todoToStore_def)

lemma mergeIncoming_same:
  assumes opt: "opt i = Some c" and c: "c \<noteq> []" and x: "todoId x = i"
      and inv: "getServerTodo st i = None \<or>
                (\<exists>t' \<in> A. todoId t' = i \<and> getServerTodo st i = Some (t'\<lparr>createdAt := c\<rparr>))"
  shows "\<exists>t' \<in> insert x A. todoId t' = i \<and>
           getServerTodo (mergeIncoming dp opt st x) i = Some (t'\<lparr>createdAt := c\<rparr>)"
proof -
  have p: "(case getServerTodo st (todoId x) of Some e \<Rightarrow> Some (createdAt e) | None \<Rightarrow> opt (todoId x))
            = Some c"
    using inv opt x by auto
  have step: "mergeIncoming dp opt st x =
      (if isNewerThan dp (x\<lparr>createdAt := c\<rparr>) (getServerTodo st i)
       then setServerTodo st (x\<lparr>createdAt := c\<rparr>) else st)"
    using p c x
    by (simp add: mergeIncoming_def updateServerStateEntry_def Let_def todoToStore_Some)
  show ?thesis
  proof (cases "getServerTodo st i")
    case None
    then show ?thesis using x by (simp add: step isNewerThan_def getServerTodo_setServerTodo)
  next
    case (Some e)
    with inv obtain t' where "t' \<in> A" "todoId t' = i" "getServerTodo st i = Some (t'\<lparr>createdAt := c\<rparr>)"
      by auto
    then show ?thesis using x by (auto simp: step getServerTodo_setServerTodo)
  qed
qed

lemma mergeServerState_keeps_createdAt:
  assumes opt: "opt i = Some c" and c: "c \<noteq> []"
      and inv: "\<exists>t' \<in> A. todoId t' = i \<and> getServerTodo st i = Some (t'\<lparr>createdAt := c\<rparr>)"
  shows "\<exists>t' \<in> A \<union> set incoming. todoId t' = i \<and>
            getServerTodo (mergeServerState dp opt st incoming) i = Some (t'\<lparr>createdAt := c\<rparr>)"
  using inv
proof (induction incoming arbitrary: st A)
  case Nil
  then show ?case by simp
next
  case (Cons x xs)
  have "\<exists>t' \<in> insert x A. todoId t' = i \<and>
             getServerTodo (mergeIncoming dp opt st x) i = Some (t'\<lparr>createdAt := c\<rparr>)"
  proof (cases "todoId x = i")
    case True
    from Cons.prems have "getServerTodo st i = None \<or>
        (\<exists>t' \<in> A. todoId t' = i \<and> getServerTodo st i = Some (t'\<lparr>createdAt := c\<rparr>))"
      by blast
    with opt c True show ?thesis by (rule mergeIncoming_same)
  next
    case False
    then have "getServerTodo (mergeIncoming dp opt st x) i = getServerTodo st i"
      by (simp add: mergeIncoming_other)
    with Cons.prems show ?thesis by auto
  qed
  from Cons.IH [of "insert x A" "mergeIncoming dp opt st x", OF this]
  show ?case by simp
qed

lemma mergeServerState_sets_createdAt:
  assumes opt: "opt i = Some c" and c: "c \<noteq> []"
      and none: "getServerTodo st i = None"
      and t: "t \<in> set incoming" "todoId t = i"
  shows "\<exists>t' \<in> set incoming. todoId t' = i \<and>
            getServerTodo (mergeServerState dp opt st incoming) i = Some (t'\<lparr>createdAt := c\<rparr>)"
  using none t
proof (induction incoming arbitrary: st)
  case Nil
  then show ?case by simp
next
  case (Cons x xs)
  show ?case
  proof (cases "todoId x = i")
    case True
    from Cons.prems(1) have "getServerTodo st i = None \<or>
        (\<exists>t' \<in> {}. todoId t' = i \<and> getServerTodo st i = Some (t'\<lparr>createdAt := c\<rparr>))"
      by blast
    with opt c True have "\<exists>t' \<in> insert x {}. todoId t' = i \<and>
             getServerTodo (mergeIncoming dp opt st x) i = Some (t'\<lparr>createdAt := c\<rparr>)"
      by (rule mergeIncoming_same)
    with opt c have "\<exists>t' \<in> insert x {} \<union> set xs. todoId t' = i \<and>
        getServerTodo (mergeServerState dp opt (mergeIncoming dp opt st x) xs) i
          = Some (t'\<lparr>createdAt := c\<rparr>)"
      by (rule mergeServerState_keeps_createdAt)
    then show ?thesis by simp
  next
    case False
    then have same: "getServerTodo (mergeIncoming dp opt st x) i = None"
      using Cons.prems(1) by (simp add: mergeIncoming_other)
    from False Cons.prems(2,3) have "t \<in> set xs" by auto
    from Cons.IH [OF same this Cons.prems(3)] show ?thesis by auto
  qed
qed

text \<open>
  C6. Let \<open>lt\<close> be an optimistic todo (version 0) of the local list, with a non-empty
  creation time that every optimistic local todo of the same id shares, and not yet in
  the server-confirmed cache. When the incoming batch holds a todo with that id, the
  cache after \<open>mergeTodos\<close> holds under that id an incoming todo of that id whose
  \<open>createdAt\<close> has been replaced by the local creation time; all its other fields are
  the incoming ones.
\<close>

theorem mergeTodos_keeps_local_createdAt:
  assumes "lt \<in> set local" and "version lt = 0"
      and "\<forall>o' \<in> set local. version o' = 0 \<and> todoId o' = todoId lt \<longrightarrow> createdAt o' = createdAt lt"
      and "createdAt lt \<noteq> []"
      and "getServerTodo st (todoId lt) = None"
      and "t \<in> set incoming" and "todoId t = todoId lt"
  shows "\<exists>t' \<in> set incoming. todoId t' = todoId lt \<and>
           getServerTodo (snd (mergeTodos dp st local incoming)) (todoId lt)
             = Some (t'\<lparr>createdAt := createdAt lt\<rparr>)"
proof -
  let ?opt = "optimisticCreatedAtById local Map.empty"
  have u: "\<forall>o' \<in> set local. isOptimisticTodo o' \<and> todoId o' = todoId lt \<longrightarrow> createdAt o' = createdAt lt"
    using assms(3) by (simp add: isOptimisticTodo_def)
  have e: "(\<exists>o' \<in> set local. isOptimisticTodo o' \<and> todoId o' = todoId lt) \<or>
      Map.empty (todoId lt) = Some (createdAt lt)"
    using assms(1,2) by (auto simp: isOptimisticTodo_def)
  have opt: "?opt (todoId lt) = Some (createdAt lt)"
    using u e by (rule optimisticCreatedAtById_unique)
  have snd: "snd (mergeTodos dp st local incoming) = mergeServerState dp ?opt st incoming"
    by (simp add: mergeTodos_def Let_def)
  show ?thesis
    unfolding snd using opt assms(4,5,6,7) by (rule mergeServerState_sets_createdAt)
qed

theorem mergeTodos_keeps_local_createdAt_witness:
  "merge_optimistic \<in> set [merge_optimistic] \<and> version merge_optimistic = 0 \<and>
   createdAt merge_optimistic \<noteq> [] \<and>
   getServerTodo initialSyncState (todoId merge_optimistic) = None \<and>
   merge_confirmed \<in> set [merge_confirmed] \<and>
   todoId merge_confirmed = todoId merge_optimistic \<and>
   createdAt merge_confirmed \<noteq> createdAt merge_optimistic \<and>
   getServerTodo (snd (mergeTodos example_dp initialSyncState [merge_optimistic] [merge_confirmed]))
       ''todo-1''
     = Some (merge_confirmed\<lparr>createdAt := ''2024-01-01T00:00:00Z''\<rparr>)"
proof -
  have a: "merge_optimistic \<in> set [merge_optimistic]" by simp
  have b: "version merge_optimistic = 0" by (simp add: merge_optimistic_def)
  have c: "\<forall>o' \<in> set [merge_optimistic]. version o' = 0 \<and> todoId o' = todoId merge_optimistic
             \<longrightarrow> createdAt o' = createdAt merge_optimistic" by simp
  have d: "createdAt merge_optimistic \<noteq> []" by (simp add: merge_optimistic_def merge_todo_def)
  have e: "getServerTodo initialSyncState (todoId merge_optimistic) = None"
    by (simp add: getServerTodo_def initialSyncState_def)
  have f: "merge_confirmed \<in> set [merge_confirmed]" by simp
  have g: "todoId merge_confirmed = todoId merge_optimistic"
    by (simp add: merge_confirmed_def merge_optimistic_def)
  have h: "createdAt merge_confirmed \<noteq> createdAt merge_optimistic"
    by (simp add: merge_confirmed_def merge_optimistic_def merge_todo_def)
  have i: "todoId merge_optimistic = ''todo-1''"
    "createdAt merge_optimistic = ''2024-01-01T00:00:00Z''"
    by (simp_all add: merge_optimistic_def merge_todo_def)
  from mergeTodos_keeps_local_createdAt [OF a b c d e f g, of example_dp]
  have "getServerTodo (snd (mergeTodos example_dp initialSyncState [merge_optimistic] [merge_confirmed]))
       ''todo-1'' = Some (merge_confirmed\<lparr>createdAt := ''2024-01-01T00:00:00Z''\<rparr>)"
    by (simp add: i)
  with a b d e f g h show ?thesis by (intro conjI)
qed

subsection \<open>Mutation processor\<close>


lemma endSyncOp_fields [simp]:
  "sync (endSyncOp e cs) = sync cs"
  "auth_user (endSyncOp e cs) = auth_user cs"
  "list_listId (endSyncOp e cs) = list_listId cs"
  "list_error (endSyncOp e cs) = list_error cs"
  "display_todos (endSyncOp e cs) = display_todos cs"
  "requests (endSyncOp e cs) = requests cs"
  "delays (endSyncOp e cs) = delays cs"
  by (simp_all add: endSyncOp_def Let_def)

lemma isRunValid_endSyncOp [simp]: "isRunValid (endSyncOp e cs) g = isRunValid cs g"
  by (simp add: isRunValid_def)

lemma executeMutation_request_exists:
  assumes "canProcess cs" and "validateMutation cs mutation = VProceed"
  shows "\<exists>user serverTodo.
           auth_user cs = Some user \<and>
           getServerTodo (sync cs) (m_todoId mutation) = Some serverTodo \<and>
           executeMutation_request cs mutation =
             Some ((m_todoId mutation,
                    \<lparr>r_userId = user, r_nextState = m_nextState mutation,
                     r_expectedVersion = version serverTodo\<rparr>),
                   (beginSyncOp cs)\<lparr>requests := requests cs @
                      [(m_todoId mutation,
                        \<lparr>r_userId = user, r_nextState = m_nextState mutation,
                         r_expectedVersion = version serverTodo\<rparr>)]\<rparr>)"
  using assms
  by (auto simp: canProcess_def validateMutation_def executeMutation_request_def Let_def
      beginSyncOp_def split: option.splits if_splits)

lemma sync_updateDisplayTodos:
  "sync (updateDisplayTodos dp ts cs)
     = mergeServerState dp (optimisticCreatedAtById (display_todos cs) Map.empty) (sync cs) ts"
  by (simp add: updateDisplayTodos_def mergeTodos_def Let_def)

lemma runGeneration_mergeIncoming:
  "runGeneration (mergeIncoming dp opt st t) = runGeneration st"
  by (simp add: mergeIncoming_def updateServerStateEntry_def setServerTodo_def Let_def)

lemma runGeneration_mergeServerState:
  "runGeneration (mergeServerState dp opt st ts) = runGeneration st"
  by (induction ts arbitrary: st) (simp_all add: runGeneration_mergeIncoming)

lemma isRunValid_updateDisplayTodos:
  "isRunValid (updateDisplayTodos dp ts cs) g = isRunValid cs g"
  by (simp add: isRunValid_def sync_updateDisplayTodos runGeneration_mergeServerState)

lemma processMutations_conflict:
  assumes valid: "isRunValid cs runGen" and can: "canProcess cs"
      and head: "getNextMutation (sync cs) i = Some mutation"
      and proceed: "validateMutation cs mutation = VProceed"
      and req: "executeMutation_request cs mutation = Some (request, cs1)"
      and still: "isRunValid (world cs1) runGen"
  shows "processMutations dp i runGen attempt
           (ApiSettled world (Inr (ApiConflict currentTodo)) # evs) cs
         = processMutations dp i runGen 1 evs
             (updateDisplayTodos dp [currentTodo] (endSyncOp None (world cs1)))"
  using assms
  by (subst processMutations.simps) (simp add: executeMutation_result_def)


lemma DEFAULT_BACKOFF_delay: "DEFAULT_BACKOFF attempt = enat (1000 * 2 ^ (attempt - 1))"
  by (simp add: DEFAULT_BACKOFF_def createBackoff_def nullish_or_def DEFAULT_FACTOR_def
      DEFAULT_MIN_TIMEOUT_def DEFAULT_MAX_TIMEOUT_def)

lemma processMutations_network_error_giveup:
  assumes valid: "isRunValid cs runGen" and can: "canProcess cs"
      and head: "getNextMutation (sync cs) i = Some mutation"
      and proceed: "validateMutation cs mutation = VProceed"
      and req: "executeMutation_request cs mutation = Some (request, cs1)"
      and ceiling: "attempt \<ge> DEFAULT_RETRIES"
  shows "processMutations dp i runGen attempt
           (ApiSettled world (Inl (OtherError message)) # evs) cs
         = (GaveUp, endSyncOp None (world cs1))"
  using assms
  by (subst processMutations.simps) (simp add: executeMutation_result_def)

lemma processMutations_network_error_retry:
  assumes valid: "isRunValid cs runGen" and can: "canProcess cs"
      and head: "getNextMutation (sync cs) i = Some mutation"
      and proceed: "validateMutation cs mutation = VProceed"
      and req: "executeMutation_request cs mutation = Some (request, cs1)"
      and below: "attempt < DEFAULT_RETRIES"
  shows "processMutations dp i runGen attempt
           (ApiSettled world (Inl (OtherError message)) # BackoffElapsed world' # evs) cs
         = processMutations dp i runGen (attempt + 1) evs
             (world' ((endSyncOp None (world cs1))
                \<lparr>delays := delays (world cs1) @ [enat (1000 * 2 ^ (attempt - 1))]\<rparr>))"
  using assms
  by (subst processMutations.simps)
     (simp add: executeMutation_result_def DEFAULT_BACKOFF_delay)

lemma executeMutation_request_fields:
  assumes "executeMutation_request cs mutation = Some (request, cs1)"
  shows "sync cs1 = sync cs" "auth_user cs1 = auth_user cs" "list_listId cs1 = list_listId cs"
    "list_error cs1 = list_error cs" "delays cs1 = delays cs"
    "requests cs1 = requests cs @ [request]" "display_todos cs1 = display_todos cs"
  using assms
  by (auto simp: executeMutation_request_def Let_def beginSyncOp_def split: option.splits)

lemma runnable_cong:
  assumes "runnable cs i g m" "sync cs' = sync cs" "auth_user cs' = auth_user cs"
    "list_listId cs' = list_listId cs" "list_error cs' = list_error cs"
  shows "runnable cs' i g m"
  using assms by (simp add: runnable_def isRunValid_def canProcess_def validateMutation_def)

lemma processMutations_network_errors_run:
  assumes "runnable cs i runGen mutation"
      and "attempt + n = DEFAULT_RETRIES" and "1 \<le> attempt"
  shows "\<exists>cs'. processMutations dp i runGen attempt
            (concat (replicate n [ApiSettled (\<lambda>c. c) (Inl (OtherError message)),
                                  BackoffElapsed (\<lambda>c. c)])
             @ ApiSettled (\<lambda>c. c) (Inl (OtherError message)) # evs) cs = (GaveUp, cs') \<and>
           sync cs' = sync cs \<and>
           delays cs' = delays cs @ map (\<lambda>k. enat (1000 * 2 ^ (k - 1))) [attempt..<DEFAULT_RETRIES] \<and>
           length (requests cs') = length (requests cs) + n + 1"
  using assms
proof (induction n arbitrary: cs attempt)
  case 0
  then have r: "isRunValid cs runGen" "canProcess cs" "getNextMutation (sync cs) i = Some mutation"
    "validateMutation cs mutation = VProceed"
    by (simp_all add: runnable_def)
  from executeMutation_request_exists [OF r(2,4)] obtain request cs1
    where req: "executeMutation_request cs mutation = Some (request, cs1)" by blast
  from 0 have "attempt \<ge> DEFAULT_RETRIES" by simp
  from processMutations_network_error_giveup [OF r req this, of dp "\<lambda>c. c" message evs]
    executeMutation_request_fields [OF req] 0
  show ?case by simp
next
  case (Suc n)
  then have r: "isRunValid cs runGen" "canProcess cs" "getNextMutation (sync cs) i = Some mutation"
    "validateMutation cs mutation = VProceed"
    by (simp_all add: runnable_def)
  from executeMutation_request_exists [OF r(2,4)] obtain request cs1
    where req: "executeMutation_request cs mutation = Some (request, cs1)" by blast
  note f = executeMutation_request_fields [OF req]
  let ?next = "(endSyncOp None cs1)\<lparr>delays := delays cs1 @ [enat (1000 * 2 ^ (attempt - 1))]\<rparr>"
  from Suc.prems have below: "attempt < DEFAULT_RETRIES" by simp
  have step: "processMutations dp i runGen attempt
            (concat (replicate (Suc n) [ApiSettled (\<lambda>c. c) (Inl (OtherError message)),
                                  BackoffElapsed (\<lambda>c. c)])
             @ ApiSettled (\<lambda>c. c) (Inl (OtherError message)) # evs) cs
        = processMutations dp i runGen (attempt + 1)
            (concat (replicate n [ApiSettled (\<lambda>c. c) (Inl (OtherError message)),
                                  BackoffElapsed (\<lambda>c. c)])
             @ ApiSettled (\<lambda>c. c) (Inl (OtherError message)) # evs) ?next"
    using processMutations_network_error_retry [OF r req below, of dp "\<lambda>c. c" message "\<lambda>c. c"]
    by simp
  have run: "runnable ?next i runGen mutation"
    using Suc.prems(1) by (rule runnable_cong) (simp_all add: f)
  from Suc.prems have "attempt + 1 + n = DEFAULT_RETRIES" "1 \<le> attempt + 1" by simp_all
  from Suc.IH [OF run this] obtain cs' where
    cs': "processMutations dp i runGen (attempt + 1)
            (concat (replicate n [ApiSettled (\<lambda>c. c) (Inl (OtherError message)),
                                  BackoffElapsed (\<lambda>c. c)])
             @ ApiSettled (\<lambda>c. c) (Inl (OtherError message)) # evs) ?next = (GaveUp, cs')"
      "sync cs' = sync ?next"
      "delays cs' = delays ?next @ map (\<lambda>k. enat (1000 * 2 ^ (k - 1))) [attempt + 1..<DEFAULT_RETRIES]"
      "length (requests cs') = length (requests ?next) + n + 1"
    by blast
  have "[attempt..<DEFAULT_RETRIES] = attempt # [attempt + 1..<DEFAULT_RETRIES]"
    using below by (simp add: upt_conv_Cons)
  with cs' step f show ?case by simp
qed

lemma canProcess_updateDisplayTodos:
  "canProcess (updateDisplayTodos dp ts cs) = canProcess cs"
  by (simp add: canProcess_def updateDisplayTodos_def split: prod.splits)

lemma requests_updateDisplayTodos:
  "requests (updateDisplayTodos dp ts cs) = requests cs"
  by (simp add: updateDisplayTodos_def split: prod.splits)

lemma processMutations_suspends:
  assumes "isRunValid cs runGen" and "canProcess cs"
      and "getNextMutation (sync cs) i = Some mutation"
      and "validateMutation cs mutation = VProceed"
      and "executeMutation_request cs mutation = Some (request, cs1)"
  shows "processMutations dp i runGen attempt [] cs = (Suspended, cs1)"
  using assms by (subst processMutations.simps) simp

lemma processMutations_skips:
  assumes "isRunValid cs runGen" and "canProcess cs"
      and "getNextMutation (sync cs) i = Some mutation"
      and "validateMutation cs mutation \<noteq> VProceed"
  shows "processMutations dp i runGen attempt evs cs
           = processMutations dp i runGen attempt evs (skipMutation dp i cs)"
  using assms by (subst processMutations.simps) simp

text \<open>
  C7. Take an iteration that reaches the API call (the run is valid, processing is
  possible, \<open>mutation\<close> heads the queue and validation says proceed) and whose call
  settles with a version conflict carrying \<open>currentTodo\<close>, the run still being valid.
  Then the run goes on as the loop started afresh, with retry counter 1, on the state
  \<open>cs'\<close> obtained by merging \<open>currentTodo\<close> into the cache: the pending queues and the
  requests sent of \<open>cs'\<close> are those found when the call settled, the loop guard holds
  in \<open>cs'\<close>, a \<open>currentTodo\<close> of a greater version than the cached one is then the
  cached todo, and the next request for the mutation carries its version. The next
  iteration validates the head of the queue against \<open>cs'\<close>: where validation says
  proceed, the run that has seen nothing but the conflict is waiting for the answer to
  a new request, sent with the version of the todo cached in \<open>cs'\<close>; where it does
  not, the run goes on from \<open>cs'\<close> with the head of the queue removed.
\<close>

theorem version_conflict_refreshes_and_retries:
  assumes "isRunValid cs runGen" and "canProcess cs"
      and "getNextMutation (sync cs) i = Some mutation"
      and "validateMutation cs mutation = VProceed"
      and "executeMutation_request cs mutation = Some (request, cs1)"
      and "isRunValid (world cs1) runGen"
  shows
    "let cs' = updateDisplayTodos dp [currentTodo] (endSyncOp None (world cs1))
     in processMutations dp i runGen attempt
          (ApiSettled world (Inr (ApiConflict currentTodo)) # evs) cs
          = processMutations dp i runGen 1 evs cs' \<and>
        sync cs' = mergeIncoming dp (optimisticCreatedAtById (display_todos (world cs1)) Map.empty)
                     (sync (world cs1)) currentTodo \<and>
        pendingMutations (sync cs') = pendingMutations (sync (world cs1)) \<and>
        requests cs' = requests (world cs1) \<and>
        isRunValid cs' runGen \<and>
        (\<forall>e. getServerTodo (sync (world cs1)) (todoId currentTodo) = Some e \<and>
              version e < version currentTodo \<longrightarrow>
           (\<exists>c. getServerTodo (sync cs') (todoId currentTodo)
                  = Some (currentTodo\<lparr>createdAt := c\<rparr>))) \<and>
        (\<forall>e request' cs1'.
           todoId currentTodo = m_todoId mutation \<and>
           getServerTodo (sync (world cs1)) (m_todoId mutation) = Some e \<and>
           version e < version currentTodo \<and>
           executeMutation_request cs' mutation = Some (request', cs1') \<longrightarrow>
           r_expectedVersion (snd request') = version currentTodo) \<and>
        (\<forall>mutation'.
           canProcess (world cs1) \<and> getNextMutation (sync (world cs1)) i = Some mutation' \<longrightarrow>
           (validateMutation cs' mutation' = VProceed \<longrightarrow>
              (\<exists>user serverTodo.
                 auth_user (world cs1) = Some user \<and>
                 getServerTodo (sync cs') (m_todoId mutation') = Some serverTodo \<and>
                 processMutations dp i runGen attempt
                     [ApiSettled world (Inr (ApiConflict currentTodo))] cs
                   = (Suspended,
                      (beginSyncOp cs')\<lparr>requests := requests (world cs1) @
                         [(m_todoId mutation',
                           \<lparr>r_userId = user, r_nextState = m_nextState mutation',
                            r_expectedVersion = version serverTodo\<rparr>)]\<rparr>))) \<and>
           (validateMutation cs' mutation' \<noteq> VProceed \<longrightarrow>
              processMutations dp i runGen attempt
                  (ApiSettled world (Inr (ApiConflict currentTodo)) # evs) cs
                = processMutations dp i runGen 1 evs (skipMutation dp i cs')))"
proof -
  define cs' where "cs' = updateDisplayTodos dp [currentTodo] (endSyncOp None (world cs1))"
  define opt where "opt = optimisticCreatedAtById (display_todos (world cs1)) Map.empty"
  define conflict where "conflict = ApiSettled world (Inr (ApiConflict currentTodo))"
  have run: "processMutations dp i runGen attempt (conflict # evs') cs
          = processMutations dp i runGen 1 evs' cs'" for evs'
    unfolding cs'_def conflict_def using assms by (rule processMutations_conflict)
  have sync': "sync cs' = mergeIncoming dp opt (sync (world cs1)) currentTodo"
    by (simp add: cs'_def opt_def sync_updateDisplayTodos)
  have queue: "pendingMutations (sync cs') = pendingMutations (sync (world cs1))"
    by (simp add: cs'_def pendingMutations_updateDisplayTodos)
  have sent: "requests cs' = requests (world cs1)"
    by (simp add: cs'_def requests_updateDisplayTodos)
  have guard: "isRunValid cs' runGen"
    using assms(6) by (simp add: cs'_def isRunValid_updateDisplayTodos)
  have can': "canProcess cs' = canProcess (world cs1)"
    unfolding cs'_def canProcess_updateDisplayTodos by (simp add: canProcess_def)
  have auth': "auth_user cs' = auth_user (world cs1)"
    by (simp add: cs'_def updateDisplayTodos_def split: prod.splits)
  have head': "getNextMutation (sync cs') i = getNextMutation (sync (world cs1)) i"
    by (simp add: getNextMutation_def queue)
  have newer: "\<exists>c. getServerTodo (sync cs') (todoId currentTodo)
                  = Some (currentTodo\<lparr>createdAt := c\<rparr>)"
    if "getServerTodo (sync (world cs1)) (todoId currentTodo) = Some e"
      and "version e < version currentTodo" for e
  proof -
    obtain c where "todoToStore currentTodo (Some (createdAt e)) = currentTodo\<lparr>createdAt := c\<rparr>"
      using todoToStore_fields(4) by blast
    with that show ?thesis
      by (auto simp: sync' mergeIncoming_def updateServerStateEntry_def isNewerThan_def
          todoToStore_fields getServerTodo_setServerTodo)
  qed
  have expected: "r_expectedVersion (snd request') = version currentTodo"
    if "todoId currentTodo = m_todoId mutation"
      and "getServerTodo (sync (world cs1)) (m_todoId mutation) = Some e"
      and "version e < version currentTodo"
      and "executeMutation_request cs' mutation = Some (request', cs1')" for e request' cs1'
  proof -
    from newer [of e] that(1-3) obtain c where
      "getServerTodo (sync cs') (m_todoId mutation) = Some (currentTodo\<lparr>createdAt := c\<rparr>)"
      by auto
    with that(4) show ?thesis
      by (auto simp: executeMutation_request_def Let_def split: option.splits)
  qed
  have retried: "\<exists>user serverTodo.
                 auth_user (world cs1) = Some user \<and>
                 getServerTodo (sync cs') (m_todoId mutation') = Some serverTodo \<and>
                 processMutations dp i runGen attempt [conflict] cs
                   = (Suspended,
                      (beginSyncOp cs')\<lparr>requests := requests (world cs1) @
                         [(m_todoId mutation',
                           \<lparr>r_userId = user, r_nextState = m_nextState mutation',
                            r_expectedVersion = version serverTodo\<rparr>)]\<rparr>)"
    if "canProcess (world cs1)" and "getNextMutation (sync (world cs1)) i = Some mutation'"
      and "validateMutation cs' mutation' = VProceed" for mutation'
  proof -
    from that(1) have c: "canProcess cs'" by (simp add: can')
    from that(2) have h: "getNextMutation (sync cs') i = Some mutation'" by (simp add: head')
    from executeMutation_request_exists [OF c that(3)] obtain user serverTodo where
      u: "auth_user cs' = Some user"
      and t: "getServerTodo (sync cs') (m_todoId mutation') = Some serverTodo"
      and r: "executeMutation_request cs' mutation' =
             Some ((m_todoId mutation',
                    \<lparr>r_userId = user, r_nextState = m_nextState mutation',
                     r_expectedVersion = version serverTodo\<rparr>),
                   (beginSyncOp cs')\<lparr>requests := requests cs' @
                      [(m_todoId mutation',
                        \<lparr>r_userId = user, r_nextState = m_nextState mutation',
                         r_expectedVersion = version serverTodo\<rparr>)]\<rparr>)"
      by blast
    from processMutations_suspends [OF guard c h that(3) r, of dp 1] run [of "[]"]
    have "processMutations dp i runGen attempt [conflict] cs
                   = (Suspended,
                      (beginSyncOp cs')\<lparr>requests := requests cs' @
                         [(m_todoId mutation',
                           \<lparr>r_userId = user, r_nextState = m_nextState mutation',
                            r_expectedVersion = version serverTodo\<rparr>)]\<rparr>)"
      by simp
    with u t show ?thesis
      by (simp add: auth' sent)
  qed
  have moot: "processMutations dp i runGen attempt (conflict # evs) cs
                = processMutations dp i runGen 1 evs (skipMutation dp i cs')"
    if "canProcess (world cs1)" and "getNextMutation (sync (world cs1)) i = Some mutation'"
      and "validateMutation cs' mutation' \<noteq> VProceed" for mutation'
  proof -
    from that(1) have c: "canProcess cs'" by (simp add: can')
    from that(2) have h: "getNextMutation (sync cs') i = Some mutation'" by (simp add: head')
    from processMutations_skips [OF guard c h that(3), of dp 1 evs] run [of evs]
    show ?thesis by simp
  qed
  show ?thesis
    unfolding Let_def cs'_def [symmetric] opt_def [symmetric] conflict_def [symmetric]
    using run [of evs] sync' queue sent guard newer expected retried moot by blast
qed

theorem version_conflict_refreshes_and_retries_witness:
  "isRunValid queued_client 0 \<and> canProcess queued_client \<and>
   getNextMutation (sync queued_client) ''todo-1'' = Some queued_mutation \<and>
   validateMutation queued_client queued_mutation = VProceed \<and>
   getServerTodo (sync queued_client) ''todo-1'' = Some merge_todo \<and>
   version merge_todo = 1 \<and> version server_current = 3 \<and>
   fst (processMutations example_dp ''todo-1'' 0 1
          [ApiSettled (\<lambda>c. c) (Inr (ApiConflict server_current))] queued_client) = Suspended \<and>
   map (\<lambda>r. (fst r, r_expectedVersion (snd r)))
     (requests (snd (processMutations example_dp ''todo-1'' 0 1
          [ApiSettled (\<lambda>c. c) (Inr (ApiConflict server_current))] queued_client)))
     = [(''todo-1'', 1), (''todo-1'', 3)] \<and>
   pendingMutations (sync (snd (processMutations example_dp ''todo-1'' 0 1
          [ApiSettled (\<lambda>c. c) (Inr (ApiConflict server_current))] queued_client)))
     = [(''todo-1'', [queued_mutation])] \<and>
   getServerTodo (sync (snd (processMutations example_dp ''todo-1'' 0 1
          [ApiSettled (\<lambda>c. c) (Inr (ApiConflict server_current))] queued_client))) ''todo-1''
     = Some server_current"
proof -
  define run where "run = processMutations example_dp ''todo-1'' 0 1
          [ApiSettled (\<lambda>c. c) (Inr (ApiConflict server_current))] queued_client"
  have cache: "getServerTodo (sync queued_client) ''todo-1'' = Some merge_todo"
    by (simp add: queued_client_def getServerTodo_def setServerTodo_def initialSyncState_def
        merge_todo_def)
  have valid: "isRunValid queued_client 0"
    by (simp add: isRunValid_def queued_client_def setServerTodo_def initialSyncState_def)
  have can: "canProcess queued_client"
    by (simp add: canProcess_def queued_client_def)
  have head: "getNextMutation (sync queued_client) ''todo-1'' = Some queued_mutation"
    by (simp add: getNextMutation_def queued_client_def setServerTodo_def)
  have mut: "m_todoId queued_mutation = ''todo-1''" "m_nextState queued_mutation = ONGOING"
    by (simp_all add: queued_mutation_def)
  have proceed: "validateMutation queued_client queued_mutation = VProceed"
    by (simp add: validateMutation_def mut cache isValidTransition_def)
       (simp add: merge_todo_def)
  from executeMutation_request_exists [OF can proceed] cache mut
  obtain request cs1 where
    req: "executeMutation_request queued_client queued_mutation = Some (request, cs1)"
      and ver: "r_expectedVersion (snd request) = version merge_todo"
      and rid: "fst request = ''todo-1''"
    by auto
  note f = executeMutation_request_fields [OF req]
  have valid1: "isRunValid cs1 0"
    using valid by (simp add: isRunValid_def f)
  have can1: "canProcess cs1"
    using can by (simp add: canProcess_def f)
  have head1: "getNextMutation (sync cs1) ''todo-1'' = Some queued_mutation"
    using head by (simp add: f)
  have cur: "todoId server_current = ''todo-1''" "version server_current = 3"
    "version merge_todo = 1" "state server_current = TODO" "deletedAt server_current = None"
    by (simp_all add: server_current_def merge_todo_def)
  define cs' where "cs' = updateDisplayTodos example_dp [server_current] (endSyncOp None cs1)"
  note spec = version_conflict_refreshes_and_retries
    [where world = "\<lambda>c. c" and dp = example_dp and currentTodo = server_current
       and attempt = 1 and evs = "[]",
     OF valid can head proceed req valid1, unfolded Let_def, folded cs'_def run_def]
  from spec have "pendingMutations (sync cs') = pendingMutations (sync cs1)"
    by blast
  then have queue: "pendingMutations (sync cs') = [(''todo-1'', [queued_mutation])]"
    by (simp add: f queued_client_def setServerTodo_def)
  from spec have "sync cs' = mergeIncoming example_dp
      (optimisticCreatedAtById (display_todos cs1) Map.empty) (sync cs1) server_current"
    by blast
  then have stored: "getServerTodo (sync cs') ''todo-1'' = Some server_current"
    using cache
    by (simp add: f mergeIncoming_def updateServerStateEntry_def isNewerThan_def
        todoToStore_def getServerTodo_setServerTodo cur)
       (simp add: server_current_def merge_todo_def)
  have proceed': "validateMutation cs' queued_mutation = VProceed"
    by (simp add: validateMutation_def mut stored cur isValidTransition_def)
  from spec can1 head1 proceed' obtain user serverTodo where
    t: "getServerTodo (sync cs') (m_todoId queued_mutation) = Some serverTodo"
    and r: "run = (Suspended,
              (beginSyncOp cs')\<lparr>requests := requests cs1 @
                 [(m_todoId queued_mutation,
                   \<lparr>r_userId = user, r_nextState = m_nextState queued_mutation,
                    r_expectedVersion = version serverTodo\<rparr>)]\<rparr>)"
    by blast
  from t stored have st: "serverTodo = server_current"
    by (simp add: mut)
  have reqs: "requests cs1 = [request]"
    by (simp add: f queued_client_def)
  have a: "fst run = Suspended"
    by (simp add: r)
  have b: "map (\<lambda>r. (fst r, r_expectedVersion (snd r))) (requests (snd run))
             = [(''todo-1'', 1), (''todo-1'', 3)]"
    by (simp add: r reqs rid ver cur st mut)
  have c: "pendingMutations (sync (snd run)) = [(''todo-1'', [queued_mutation])]"
    by (simp add: r beginSyncOp_def queue)
  have d: "getServerTodo (sync (snd run)) ''todo-1'' = Some server_current"
    using stored by (simp add: r beginSyncOp_def getServerTodo_def)
  from valid can head proceed cache cur(3) cur(2) a b c d show ?thesis
    unfolding run_def by (intro conjI)
qed


text \<open>
  C8. Take an iteration that reaches the API call and whose call fails with a network
  error. Below the ceiling \<open>DEFAULT_RETRIES = 10\<close> of the retry counter the run waits
  \<open>1000 * 2 ^ (attempt - 1)\<close> milliseconds and goes on as the loop started afresh with
  the counter raised by one; at the ceiling the run ends at once. Neither path touches
  the pending queues. A run that starts with counter 1 and meets ten network errors in
  a row, with nothing else happening in between, waits 1000, 2000, ..., 256000
  milliseconds and then gives up, with cache and queues as they were and the mutation
  still at the head of its queue.
\<close>

theorem network_error_backoff_then_give_up:
  assumes "isRunValid cs runGen" and "canProcess cs"
      and "getNextMutation (sync cs) i = Some mutation"
      and "validateMutation cs mutation = VProceed"
      and "executeMutation_request cs mutation = Some (request, cs1)"
  shows
    "(attempt < 10 \<longrightarrow>
        processMutations dp i runGen attempt
          (ApiSettled world (Inl (OtherError message)) # BackoffElapsed world' # evs) cs
        = processMutations dp i runGen (attempt + 1) evs
            (world' ((endSyncOp None (world cs1))
               \<lparr>delays := delays (world cs1) @ [enat (1000 * 2 ^ (attempt - 1))]\<rparr>))) \<and>
     (10 \<le> attempt \<longrightarrow>
        processMutations dp i runGen attempt
          (ApiSettled world (Inl (OtherError message)) # evs) cs
        = (GaveUp, endSyncOp None (world cs1))) \<and>
     pendingMutations (sync (endSyncOp None (world cs1))) = pendingMutations (sync (world cs1)) \<and>
     (\<exists>cs'. processMutations dp i runGen 1
              (concat (replicate 9 [ApiSettled (\<lambda>c. c) (Inl (OtherError message)),
                                    BackoffElapsed (\<lambda>c. c)])
               @ ApiSettled (\<lambda>c. c) (Inl (OtherError message)) # evs) cs = (GaveUp, cs') \<and>
            sync cs' = sync cs \<and>
            getNextMutation (sync cs') i = Some mutation \<and>
            delays cs' = delays cs @
              map enat [1000, 2000, 4000, 8000, 16000, 32000, 64000, 128000, 256000] \<and>
            length (requests cs') = length (requests cs) + 10)"
proof -
  have retry: "processMutations dp i runGen attempt
          (ApiSettled world (Inl (OtherError message)) # BackoffElapsed world' # evs) cs
        = processMutations dp i runGen (attempt + 1) evs
            (world' ((endSyncOp None (world cs1))
               \<lparr>delays := delays (world cs1) @ [enat (1000 * 2 ^ (attempt - 1))]\<rparr>))"
    if "attempt < 10"
    using assms that
    by (intro processMutations_network_error_retry) (simp_all add: DEFAULT_RETRIES_def)
  have giveup: "processMutations dp i runGen attempt
          (ApiSettled world (Inl (OtherError message)) # evs) cs
        = (GaveUp, endSyncOp None (world cs1))"
    if "10 \<le> attempt"
    using assms that
    by (intro processMutations_network_error_giveup) (simp_all add: DEFAULT_RETRIES_def)
  have run: "runnable cs i runGen mutation"
    using assms by (simp add: runnable_def)
  have upt: "[1..<10] = [1, 2, 3, 4, 5, 6, 7, 8, 9::nat]"
    by (simp add: upt_conv_Cons)
  from processMutations_network_errors_run [OF run, of 1 9 dp message evs]
  obtain cs' where cs': "processMutations dp i runGen 1
              (concat (replicate 9 [ApiSettled (\<lambda>c. c) (Inl (OtherError message)),
                                    BackoffElapsed (\<lambda>c. c)])
               @ ApiSettled (\<lambda>c. c) (Inl (OtherError message)) # evs) cs = (GaveUp, cs')"
      "sync cs' = sync cs"
      "delays cs' = delays cs @ map (\<lambda>k. enat (1000 * 2 ^ (k - 1))) [1..<10]"
      "length (requests cs') = length (requests cs) + 9 + 1"
    by (auto simp: DEFAULT_RETRIES_def)
  have "delays cs' = delays cs @
              map enat [1000, 2000, 4000, 8000, 16000, 32000, 64000, 128000, 256000]"
    unfolding cs'(3) upt by simp
  with cs' assms(3) have whole: "\<exists>cs'. processMutations dp i runGen 1
              (concat (replicate 9 [ApiSettled (\<lambda>c. c) (Inl (OtherError message)),
                                    BackoffElapsed (\<lambda>c. c)])
               @ ApiSettled (\<lambda>c. c) (Inl (OtherError message)) # evs) cs = (GaveUp, cs') \<and>
            sync cs' = sync cs \<and>
            getNextMutation (sync cs') i = Some mutation \<and>
            delays cs' = delays cs @
              map enat [1000, 2000, 4000, 8000, 16000, 32000, 64000, 128000, 256000] \<and>
            length (requests cs') = length (requests cs) + 10"
    by auto
  from retry giveup whole show ?thesis by simp
qed

theorem network_error_backoff_then_give_up_witness:
  "isRunValid queued_client 0 \<and> canProcess queued_client \<and>
   getNextMutation (sync queued_client) ''todo-1'' = Some queued_mutation \<and>
   validateMutation queued_client queued_mutation = VProceed \<and>
   (\<exists>request cs1. executeMutation_request queued_client queued_mutation = Some (request, cs1)) \<and>
   (\<exists>cs'. processMutations example_dp ''todo-1'' 0 1
            (concat (replicate 9 [network_failure, BackoffElapsed (\<lambda>c. c)]) @ [network_failure])
            queued_client = (GaveUp, cs') \<and>
          sync cs' = sync queued_client \<and>
          getNextMutation (sync cs') ''todo-1'' = Some queued_mutation \<and>
          delays cs' = map enat [1000, 2000, 4000, 8000, 16000, 32000, 64000, 128000, 256000] \<and>
          length (requests cs') = 10)"
proof -
  have cache: "getServerTodo (sync queued_client) ''todo-1'' = Some merge_todo"
    by (simp add: queued_client_def getServerTodo_def setServerTodo_def initialSyncState_def
        merge_todo_def)
  have valid: "isRunValid queued_client 0"
    by (simp add: isRunValid_def queued_client_def setServerTodo_def initialSyncState_def)
  have can: "canProcess queued_client"
    by (simp add: canProcess_def queued_client_def)
  have head: "getNextMutation (sync queued_client) ''todo-1'' = Some queued_mutation"
    by (simp add: getNextMutation_def queued_client_def setServerTodo_def)
  have mut: "m_todoId queued_mutation = ''todo-1''" "m_nextState queued_mutation = ONGOING"
    by (simp_all add: queued_mutation_def)
  have proceed: "validateMutation queued_client queued_mutation = VProceed"
    by (simp add: validateMutation_def mut cache isValidTransition_def)
       (simp add: merge_todo_def)
  from executeMutation_request_exists [OF can proceed]
  obtain request cs1 where
    req: "executeMutation_request queued_client queued_mutation = Some (request, cs1)"
    by auto
  have logs: "delays queued_client = []" "requests queued_client = []"
    by (simp_all add: queued_client_def)
  from network_error_backoff_then_give_up
    [OF valid can head proceed req, of 1 example_dp "\<lambda>c. c" "''Failed to fetch''" "\<lambda>c. c" "[]"]
  have "\<exists>cs'. processMutations example_dp ''todo-1'' 0 1
            (concat (replicate 9 [network_failure, BackoffElapsed (\<lambda>c. c)]) @ [network_failure])
            queued_client = (GaveUp, cs') \<and>
          sync cs' = sync queued_client \<and>
          getNextMutation (sync cs') ''todo-1'' = Some queued_mutation \<and>
          delays cs' = map enat [1000, 2000, 4000, 8000, 16000, 32000, 64000, 128000, 256000] \<and>
          length (requests cs') = 10"
    unfolding network_failure_def logs by simp
  with valid can head proceed req show ?thesis by blast
qed


subsection \<open>Sync tokens\<close>

lemma wellFormedPayload_iff:
  "wellFormedPayload v \<longleftrightarrow>
     (\<exists>props. v = JObject props) \<and>
     (\<exists>u. property v ''lastUpdatedAt'' = Some (JString u)) \<and>
     \<not> (\<exists>x. property v ''lastId'' = Some x \<and> (\<forall>i. x \<noteq> JString i))"
proof (cases v)
  case (JObject props)
  have a: "typeof_string x \<longleftrightarrow> (\<exists>u. x = Some (JString u))" for x
    by (auto simp: typeof_string_def split: option.splits JsonValue.splits)
  show ?thesis
  proof (cases "map_of props ''lastId''")
    case None
    then show ?thesis
      unfolding wellFormedPayload_def a
      by (auto simp: JObject property_in_def property_def typeof_object_def)
  next
    case (Some x)
    then show ?thesis
      unfolding wellFormedPayload_def a
      by (auto simp: JObject property_in_def property_def typeof_object_def)
  qed
qed (simp_all add: wellFormedPayload_def typeof_object_def property_in_def)

lemma decodeSyncToken_wellFormed:
  assumes "(if hasBuffer P then Some (Buffer_base64_to_utf8 P token) else atob P token) = Some json"
      and "JSON_parse P json = Some v"
  shows "decodeSyncToken P token =
           (if wellFormedPayload v
            then Some \<lparr>lastUpdatedAt = the (string_of (property v ''lastUpdatedAt'')),
                       lastId = string_of (property v ''lastId'')\<rparr>
            else None)"
proof (cases "wellFormedPayload v")
  case True
  then obtain u where "property v ''lastUpdatedAt'' = Some (JString u)"
    unfolding wellFormedPayload_iff by blast
  then have "string_of (property v ''lastUpdatedAt'') = Some u"
    by (simp add: string_of_def)
  with True assms show ?thesis
    unfolding decodeSyncToken_def wellFormedPayload_def [symmetric] by simp
next
  case False
  with assms show ?thesis
    unfolding decodeSyncToken_def wellFormedPayload_def [symmetric] by simp
qed

lemma decodeSyncToken_None_iff:
  "decodeSyncToken P token = None \<longleftrightarrow>
     (case (if hasBuffer P then Some (Buffer_base64_to_utf8 P token) else atob P token) of
        None \<Rightarrow> True
      | Some json \<Rightarrow> (case JSON_parse P json of None \<Rightarrow> True | Some v \<Rightarrow> \<not> wellFormedPayload v))"
proof (cases "if hasBuffer P then Some (Buffer_base64_to_utf8 P token) else atob P token")
  case None
  then show ?thesis by (simp add: decodeSyncToken_def)
next
  case (Some json)
  show ?thesis
  proof (cases "JSON_parse P json")
    case None
    with Some show ?thesis by (simp add: decodeSyncToken_def)
  next
    case (Some v)
    from decodeSyncToken_wellFormed [OF \<open>_ = Some json\<close> Some] \<open>_ = Some json\<close> Some
    show ?thesis by simp
  qed
qed


lemma wellFormedPayload_payloadObject: "wellFormedPayload (payloadObject payload)"
  by (cases "lastId payload")
    (simp_all add: wellFormedPayload_def payloadObject_def typeof_object_def property_in_def
      property_def typeof_string_def)

lemma decodeSyncToken_payloadObject:
  assumes "(if hasBuffer P then Some (Buffer_base64_to_utf8 P token) else atob P token) = Some json"
      and "JSON_parse P json = Some (payloadObject payload)"
  shows "decodeSyncToken P token = Some payload"
proof -
  have u: "the (string_of (property (payloadObject payload) ''lastUpdatedAt'')) = lastUpdatedAt payload"
    by (simp add: payloadObject_def property_def string_of_def)
  have i: "string_of (property (payloadObject payload) ''lastId'') = lastId payload"
    by (cases "lastId payload") (simp_all add: payloadObject_def property_def string_of_def)
  from decodeSyncToken_wellFormed [OF assms] show ?thesis
    by (simp add: wellFormedPayload_payloadObject u i)
qed


subsection \<open>The reference platform\<close>

lemma of_char_less_256: "(of_char c :: nat) < 256"
proof -
  have "(of_char c :: nat) mod 256 < 256" by simp
  then show ?thesis by (simp only: of_char_mod_256)
qed

lemma divmod_unique:
  fixes q r m :: nat
  assumes "r < m"
  shows "(q * m + r) div m = q" "(q * m + r) mod m = r"
  using assms by simp_all

lemma b64val_b64char: "n < 64 \<Longrightarrow> b64val (b64char n) = Some n"
  by (auto simp: b64val_def b64char_def Let_def)

lemma b64val_pad: "b64val CHR ''='' = None"
  by (simp add: b64val_def)

lemma b64char_not_pad: "n < 64 \<Longrightarrow> b64char n \<noteq> CHR ''=''"
  using b64val_b64char [of n] b64val_pad by auto

lemma base64_sextets_b64char:
  "n < 64 \<Longrightarrow> base64_sextets (b64char n # t) = n # base64_sextets t"
  by (simp add: b64val_b64char b64char_not_pad)

lemma base64_sextets_pad: "base64_sextets (CHR ''='' # t) = []"
  by simp

lemma sextets:
  fixes A B C :: nat
  assumes "A < 256" "B < 256" "C < 256"
  shows "A div 4 < 64" "A mod 4 * 16 + B div 16 < 64" "B mod 16 * 4 + C div 64 < 64"
    "C mod 64 < 64" "A mod 4 * 16 < 64" "B mod 16 * 4 < 64"
    "(A mod 4 * 16 + B div 16) div 16 = A mod 4"
    "(A mod 4 * 16 + B div 16) mod 16 = B div 16"
    "(B mod 16 * 4 + C div 64) div 4 = B mod 16"
    "(B mod 16 * 4 + C div 64) mod 4 = C div 64"
    "(A mod 4 * 16) div 16 = A mod 4" "(A mod 4 * 16) mod 16 = 0"
    "(B mod 16 * 4) div 4 = B mod 16" "(B mod 16 * 4) mod 4 = 0"
    "B div 16 mod 16 = B div 16" "C div 64 mod 4 = C div 64"
proof -
  from assms have b: "B div 16 < 16" "C div 64 < 4" "A div 4 < 64" by simp_all
  have a: "A mod 4 < 4" "B mod 16 < 16" by simp_all
  show "A div 4 < 64" by (rule b)
  from a b show "A mod 4 * 16 + B div 16 < 64" "B mod 16 * 4 + C div 64 < 64"
    "A mod 4 * 16 < 64" "B mod 16 * 4 < 64" by linarith+
  show "C mod 64 < 64" by simp
  from b show "(A mod 4 * 16 + B div 16) div 16 = A mod 4"
    "(A mod 4 * 16 + B div 16) mod 16 = B div 16"
    "(B mod 16 * 4 + C div 64) div 4 = B mod 16"
    "(B mod 16 * 4 + C div 64) mod 4 = C div 64"
    by (simp_all add: divmod_unique)
  show "(A mod 4 * 16) div 16 = A mod 4" "(A mod 4 * 16) mod 16 = 0"
    "(B mod 16 * 4) div 4 = B mod 16" "(B mod 16 * 4) mod 4 = 0"
    by simp_all
  from b show "B div 16 mod 16 = B div 16" "C div 64 mod 4 = C div 64"
    by simp_all
qed

lemma base64_roundtrip: "base64_decode (base64_encode s) = s"
proof (induction s rule: base64_encode.induct)
  case 1
  show ?case by (simp add: base64_decode_def)
next
  case (2 a)
  note s = sextets [OF of_char_less_256 [of a] of_char_less_256 [of a] of_char_less_256 [of a]]
  show ?case
    by (simp add: base64_decode_def Let_def base64_sextets_b64char base64_sextets_pad s
        del: base64_sextets.simps(2))
next
  case (3 a b)
  note s = sextets [OF of_char_less_256 [of a] of_char_less_256 [of b] of_char_less_256 [of b]]
  show ?case
    by (simp add: base64_decode_def Let_def base64_sextets_b64char base64_sextets_pad s
        del: base64_sextets.simps(2))
next
  case (4 a b c rest)
  note s = sextets [OF of_char_less_256 [of a] of_char_less_256 [of b] of_char_less_256 [of c]]
  from 4 show ?case
    by (simp add: base64_decode_def Let_def base64_sextets_b64char base64_sextets_pad s
        del: base64_sextets.simps(2))
qed

lemma utf8_decode_char: "utf8_decode (utf8_char c @ bs) = c # utf8_decode bs"
proof (cases "(of_char c :: nat) < 128")
  case True
  then show ?thesis by (cases bs) (simp_all add: utf8_char_def)
next
  case False
  define n where "n = (of_char c :: nat)"
  define q where "q = n div 64"
  define r where "r = n mod 64"
  have n: "128 \<le> n" "n < 256" using False of_char_less_256 [of c] by (simp_all add: n_def)
  have r: "r < 64" by (simp add: r_def)
  have nqr: "n = 64 * q + r" by (simp add: q_def r_def)
  from n r nqr have q: "2 \<le> q" "q \<le> 3" by arith+
  have lead: "(of_char (char_of (192 + q) :: char) :: nat) = 192 + q"
    using q by simp
  have cont: "(of_char (char_of (128 + r) :: char) :: nat) = 128 + r"
    using r by simp
  have orig: "char_of (q * 64 + r) = c"
  proof -
    have "q * 64 + r = (of_char c :: nat)" using nqr by (simp add: n_def)
    then have "char_of (q * 64 + r) = (char_of (of_char c :: nat) :: char)" by (simp only:)
    then show ?thesis by simp
  qed
  have enc: "utf8_char c = [char_of (192 + q), char_of (128 + r)]"
    using False by (simp add: utf8_char_def Let_def n_def q_def r_def)
  show ?thesis
    unfolding enc using q r orig by (simp add: lead cont Let_def)
qed

lemma utf8_roundtrip: "utf8_decode (utf8_encode s) = s"
  by (induction s) (simp_all add: utf8_encode_def utf8_decode_char)

lemma hexval_hexdigit: "n < 16 \<Longrightarrow> hexval (hexdigit n) = Some n"
  by (auto simp: hexval_def hexdigit_def Let_def)

lemma hexval_zero: "hexval CHR ''0'' = Some 0"
  by (simp add: hexval_def)

lemma unicodeEscape_control:
  assumes "(of_char c :: nat) < 32"
  shows "unicodeEscape CHR ''0'' CHR ''0'' (hexdigit ((of_char c :: nat) div 16))
           (hexdigit ((of_char c :: nat) mod 16)) = Some c"
proof -
  from assms have "(of_char c :: nat) div 16 < 16" by simp
  then show ?thesis
    by (simp add: unicodeEscape_def hexval_zero hexval_hexdigit)
qed

lemma parseStringChars_quoteChar:
  "parseStringChars (quoteChar c @ rest) = consResult c (parseStringChars rest)"
proof -
  consider (b) "c = CHR 0x08" | (t) "c = CHR 0x09" | (n) "c = CHR 0x0A" | (f) "c = CHR 0x0C"
    | (r) "c = CHR 0x0D" | (q) "c = CHR 0x22" | (s) "c = CHR 0x5C"
    | (ctl) "c \<notin> {CHR 0x08, CHR 0x09, CHR 0x0A, CHR 0x0C, CHR 0x0D, CHR 0x22, CHR 0x5C}"
        "(of_char c :: nat) < 32"
    | (plain) "c \<notin> {CHR 0x08, CHR 0x09, CHR 0x0A, CHR 0x0C, CHR 0x0D, CHR 0x22, CHR 0x5C}"
        "\<not> (of_char c :: nat) < 32"
    by blast
  then show ?thesis
  proof cases
    case ctl
    then show ?thesis
      by (simp add: quoteChar_def unicodeEscape_control)
  next
    case plain
    then show ?thesis
      by (simp add: quoteChar_def)
  qed (simp_all add: quoteChar_def unescape_def)
qed

lemma parseStringChars_quoted:
  "parseStringChars (concat (map quoteChar s) @ CHR 0x22 # rest) = Some (s, rest)"
  by (induction s) (simp_all add: parseStringChars_quoteChar consResult_def)

lemma tokenize_punctuation:
  assumes "punctuation c = Some t"
  shows "tokenize (c # r) = consToken t (tokenize r)"
proof -
  from assms have "\<not> isWhitespace c"
    by (auto simp: punctuation_def isWhitespace_def split: if_splits)
  with assms show ?thesis
    by (subst tokenize.simps) simp
qed

lemma tokenize_quoteJSONString:
  "tokenize (quoteJSONString x @ rest) = consToken (TScalar (JString x)) (tokenize rest)"
proof -
  have "lexScalar (quoteJSONString x @ rest) = Some (JString x, rest)"
    by (simp add: lexScalar_def lexString_def quoteJSONString_def parseStringChars_quoted)
  then show ?thesis
    by (subst tokenize.simps)
      (simp add: quoteJSONString_def isWhitespace_def punctuation_def)
qed

lemma tokenize_member:
  "tokenize (stringifyMember (k, JString v) @ rest)
     = consToken (TScalar (JString k)) (consToken TColon
         (consToken (TScalar (JString v)) (tokenize rest)))"
  by (simp add: stringifyMember_def tokenize_quoteJSONString tokenize_punctuation
      punctuation_def)

lemma tokenize_close: "tokenize ''}'' = Some [TRBrace]"
  by (simp add: tokenize_punctuation punctuation_def tokenize.simps [of "[]"] consToken_def)

lemma parseJSON_one:
  "parseJSON (stringifyObject (JObject [(k, JString v)])) = Some (JObject [(k, JString v)])"
proof -
  have "tokenize (stringifyObject (JObject [(k, JString v)]))
          = Some [TLBrace, TScalar (JString k), TColon, TScalar (JString v), TRBrace]"
    by (simp add: stringifyObject_def tokenize_punctuation [of "CHR ''{''"] punctuation_def
        tokenize_member tokenize_close consToken_def)
  then show ?thesis
    by (simp add: parseJSON_def step_def startValue_def startMember_def)
qed

lemma parseJSON_two:
  assumes "k \<noteq> k'"
  shows "parseJSON (stringifyObject (JObject [(k, JString v), (k', JString v')]))
           = Some (JObject [(k, JString v), (k', JString v')])"
proof -
  have "tokenize (stringifyObject (JObject [(k, JString v), (k', JString v')]))
          = Some [TLBrace, TScalar (JString k), TColon, TScalar (JString v), TComma,
                  TScalar (JString k'), TColon, TScalar (JString v'), TRBrace]"
    by (simp add: stringifyObject_def tokenize_punctuation [of "CHR ''{''"]
        tokenize_punctuation [of "CHR '',''"] punctuation_def
        tokenize_member tokenize_close consToken_def)
  with assms show ?thesis
    by (simp add: parseJSON_def step_def startValue_def startMember_def)
qed

lemma reference_json_lossless: "json_lossless reference_platform"
proof -
  have "parseJSON (stringifyObject (payloadObject payload)) = Some (payloadObject payload)"
    for payload
    by (cases "lastId payload") (simp_all add: payloadObject_def parseJSON_one parseJSON_two)
  then show ?thesis
    by (simp add: json_lossless_def reference_platform_def)
qed

lemma reference_buffer_lossless: "buffer_lossless reference_platform"
  by (simp add: buffer_lossless_def reference_platform_def base64_roundtrip utf8_roundtrip)

lemma browser_json_lossless: "json_lossless browser_platform"
  using reference_json_lossless by (simp add: json_lossless_def browser_platform_def)

lemma browser_binary_lossless: "binary_lossless browser_platform"
  by (auto simp: binary_lossless_def browser_platform_def reference_platform_def
      reference_atob_def base64_roundtrip)

lemma sync_store_list:
  "listExists sync_store ''list-1''"
  "getTodosForList sync_store ''list-1'' None = [todo_a, todo_b, todo_c]"
  by code_simp+

text \<open>
  C9. A request whose sync token \<open>decodeSyncToken\<close> refuses is served as a request
  without a token. \<open>decodeSyncToken\<close> returns \<open>null\<close> exactly when \<open>atob\<close> throws,
  when \<open>JSON.parse\<close> throws on the decoded text, or when the parsed value is not an
  object, has no string \<open>lastUpdatedAt\<close>, or has a \<open>lastId\<close> that is not a string;
  where \<open>Buffer\<close> exists the decoding itself never refuses a token. For a refused
  token the reply of the route is the reply to the same request without a token; on
  the server, where \<open>Buffer\<close> exists, for an existing list it is the 200 reply with
  the whole list.
\<close>

theorem malformed_token_full_resync:
  "(decodeSyncToken P token = None \<longleftrightarrow>
      (\<not> hasBuffer P \<and> atob P token = None) \<or>
      (\<exists>json. (if hasBuffer P then Some (Buffer_base64_to_utf8 P token) else atob P token) = Some json \<and>
         (JSON_parse P json = None \<or>
          (\<exists>v. JSON_parse P json = Some v \<and>
             ((\<forall>props. v \<noteq> JObject props) \<or>
              (\<forall>u. property v ''lastUpdatedAt'' \<noteq> Some (JString u)) \<or>
              (\<exists>x. property v ''lastId'' = Some x \<and> (\<forall>i. x \<noteq> JString i))))))) \<and>
   (decodeSyncToken P token = None \<longrightarrow>
      getTodosRoute P s l (Some token) = getTodosRoute P s l None \<and>
      (listExists s l \<and> hasBuffer P \<longrightarrow>
         (\<exists>newSyncToken. getTodosRoute P s l (Some token)
             = Ok200 (getTodosForList s l None) newSyncToken)))"
proof (intro conjI impI)
  show "decodeSyncToken P token = None \<longleftrightarrow>
      (\<not> hasBuffer P \<and> atob P token = None) \<or>
      (\<exists>json. (if hasBuffer P then Some (Buffer_base64_to_utf8 P token) else atob P token) = Some json \<and>
         (JSON_parse P json = None \<or>
          (\<exists>v. JSON_parse P json = Some v \<and>
             ((\<forall>props. v \<noteq> JObject props) \<or>
              (\<forall>u. property v ''lastUpdatedAt'' \<noteq> Some (JString u)) \<or>
              (\<exists>x. property v ''lastId'' = Some x \<and> (\<forall>i. x \<noteq> JString i))))))"
    unfolding decodeSyncToken_None_iff wellFormedPayload_iff
    by (cases "hasBuffer P") (auto split: option.splits)
next
  assume none: "decodeSyncToken P token = None"
  then have c: "cursorOfToken P (Some token) = cursorOfToken P None"
    by (simp add: cursorOfToken_def)
  then show "getTodosRoute P s l (Some token) = getTodosRoute P s l None"
    by (simp add: getTodosRoute_def)
  assume "listExists s l \<and> hasBuffer P"
  then show "\<exists>newSyncToken. getTodosRoute P s l (Some token)
             = Ok200 (getTodosForList s l None) newSyncToken"
    using none
    by (simp add: getTodosRoute_def cursorOfToken_def encodeSyncToken_def Let_def)
qed

theorem malformed_token_full_resync_witness:
  "decodeSyncToken reference_platform ''eyJsYXN0SWQiOiJjIn0='' = None \<and>
   getTodosRoute reference_platform sync_store ''list-1'' (Some ''eyJsYXN0SWQiOiJjIn0='')
     = getTodosRoute reference_platform sync_store ''list-1'' None \<and>
   listExists sync_store ''list-1'' \<and> hasBuffer reference_platform \<and>
   (\<exists>newSyncToken. getTodosRoute reference_platform sync_store ''list-1'' (Some ''eyJsYXN0SWQiOiJjIn0='')
      = Ok200 (getTodosForList sync_store ''list-1'' None) newSyncToken) \<and>
   getTodosForList sync_store ''list-1'' None = [todo_a, todo_b, todo_c] \<and>
   decodeSyncToken reference_platform ''not a token'' = None \<and>
   getTodosRoute reference_platform sync_store ''list-1'' (Some ''not a token'')
     = getTodosRoute reference_platform sync_store ''list-1'' None"
proof -
  note spec = malformed_token_full_resync
    [of reference_platform "''eyJsYXN0SWQiOiJjIn0=''" sync_store "''list-1''", THEN conjunct2]
  note spec' = malformed_token_full_resync
    [of reference_platform "''not a token''" sync_store "''list-1''", THEN conjunct2]
  have none: "decodeSyncToken reference_platform ''eyJsYXN0SWQiOiJjIn0='' = None"
    by code_simp
  have none': "decodeSyncToken reference_platform ''not a token'' = None"
    by code_simp
  have buf: "hasBuffer reference_platform"
    by (simp add: reference_platform_def)
  from spec none have same: "getTodosRoute reference_platform sync_store ''list-1'' (Some ''eyJsYXN0SWQiOiJjIn0='')
     = getTodosRoute reference_platform sync_store ''list-1'' None"
    by blast
  from spec' none'
  have same': "getTodosRoute reference_platform sync_store ''list-1'' (Some ''not a token'')
     = getTodosRoute reference_platform sync_store ''list-1'' None"
    by blast
  from spec none sync_store_list(1) buf
  have whole: "\<exists>newSyncToken. getTodosRoute reference_platform sync_store ''list-1'' (Some ''eyJsYXN0SWQiOiJjIn0='')
      = Ok200 (getTodosForList sync_store ''list-1'' None) newSyncToken"
    by blast
  from none same sync_store_list buf whole none' same' show ?thesis
    by (intro conjI)
qed

text \<open>
  On the server a token is not refused for not being Base64. \<open>Buffer\<close> skips the four
  exclamation marks that follow a token the server issued, and reads a token without
  its padding. Either text decodes to a payload; the route uses it as a cursor and
  answers with the todos after it, not with the whole list.
\<close>

theorem lenient_base64_token_counterexample:
  "\<not> isBase64 ''eyJsYXN0VXBkYXRlZEF0IjoiMjAyNS0wMS0wMVQwMDowMDowMC4wMDFaIiwibGFzdElkIjoiYyJ9!!!!'' \<and>
   decodeSyncToken reference_platform ''eyJsYXN0VXBkYXRlZEF0IjoiMjAyNS0wMS0wMVQwMDowMDowMC4wMDFaIiwibGFzdElkIjoiYyJ9!!!!'' = Some example_payload \<and>
   getTodosRoute reference_platform sync_store ''list-1'' (Some ''eyJsYXN0VXBkYXRlZEF0IjoiMjAyNS0wMS0wMVQwMDowMDowMC4wMDFaIiwibGFzdElkIjoiYyJ9!!!!'') = Ok200 [] ''eyJsYXN0VXBkYXRlZEF0IjoiMjAyNS0wMS0wMVQwMDowMDowMC4wMDFaIiwibGFzdElkIjoiYyJ9'' \<and>
   \<not> isBase64 ''eyJsYXN0VXBkYXRlZEF0IjoiMjAyNS0wMS0wMVQwMDowMDowMC4wMDFaIn0'' \<and>
   decodeSyncToken reference_platform ''eyJsYXN0VXBkYXRlZEF0IjoiMjAyNS0wMS0wMVQwMDowMDowMC4wMDFaIn0'' = Some example_payload_without_id \<and>
   getTodosRoute reference_platform sync_store ''list-1'' (Some ''eyJsYXN0VXBkYXRlZEF0IjoiMjAyNS0wMS0wMVQwMDowMDowMC4wMDFaIn0'') = Ok200 [todo_c] ''eyJsYXN0VXBkYXRlZEF0IjoiMjAyNS0wMS0wMVQwMDowMDowMC4wMDFaIiwibGFzdElkIjoiYyJ9'' \<and>
   getTodosRoute reference_platform sync_store ''list-1'' None
     = Ok200 [todo_a, todo_b, todo_c] ''eyJsYXN0VXBkYXRlZEF0IjoiMjAyNS0wMS0wMVQwMDowMDowMC4wMDFaIiwibGFzdElkIjoiYyJ9''"
  by code_simp

text \<open>
  C10. Decoding an encoded payload gives the payload back. On a platform whose
  \<open>JSON.parse\<close> reads the text of a payload object back and whose decoding function
  inverts its encoding function, \<open>encodeSyncToken\<close> returns a token wherever \<open>Buffer\<close>
  exists, and every token it returns decodes to the payload it was given.
\<close>

theorem sync_token_roundtrip:
  assumes "json_lossless P"
      and "if hasBuffer P then buffer_lossless P else binary_lossless P"
  shows "(hasBuffer P \<longrightarrow> encodeSyncToken P payload \<noteq> None) \<and>
         (\<forall>token. encodeSyncToken P payload = Some token
            \<longrightarrow> decodeSyncToken P token = Some payload)"
proof (intro conjI allI impI)
  assume "hasBuffer P"
  then show "encodeSyncToken P payload \<noteq> None"
    by (simp add: encodeSyncToken_def Let_def)
next
  fix token
  assume enc: "encodeSyncToken P payload = Some token"
  define json where "json = JSON_stringify P (payloadObject payload)"
  from assms(1) have parse: "JSON_parse P json = Some (payloadObject payload)"
    by (simp add: json_lossless_def json_def)
  have "(if hasBuffer P then Some (Buffer_base64_to_utf8 P token) else atob P token) = Some json"
  proof (cases "hasBuffer P")
    case True
    with enc have "token = Buffer_utf8_to_base64 P json"
      by (simp add: encodeSyncToken_def json_def)
    moreover from True assms(2) have "buffer_lossless P" by simp
    ultimately show ?thesis
      using True by (simp add: buffer_lossless_def)
  next
    case False
    with enc have "btoa P json = Some token"
      by (simp add: encodeSyncToken_def json_def)
    moreover from False assms(2) have "binary_lossless P" by simp
    ultimately show ?thesis
      using False by (simp add: binary_lossless_def)
  qed
  from decodeSyncToken_payloadObject [OF this parse]
  show "decodeSyncToken P token = Some payload" .
qed

theorem sync_token_roundtrip_witness:
  "json_lossless reference_platform \<and> hasBuffer reference_platform \<and>
   buffer_lossless reference_platform \<and>
   encodeSyncToken reference_platform example_payload = Some ''eyJsYXN0VXBkYXRlZEF0IjoiMjAyNS0wMS0wMVQwMDowMDowMC4wMDFaIiwibGFzdElkIjoiYyJ9'' \<and>
   decodeSyncToken reference_platform ''eyJsYXN0VXBkYXRlZEF0IjoiMjAyNS0wMS0wMVQwMDowMDowMC4wMDFaIiwibGFzdElkIjoiYyJ9'' = Some example_payload \<and>
   \<not> hasBuffer browser_platform \<and>
   encodeSyncToken browser_platform example_payload = Some ''eyJsYXN0VXBkYXRlZEF0IjoiMjAyNS0wMS0wMVQwMDowMDowMC4wMDFaIiwibGFzdElkIjoiYyJ9'' \<and>
   decodeSyncToken browser_platform ''eyJsYXN0VXBkYXRlZEF0IjoiMjAyNS0wMS0wMVQwMDowMDowMC4wMDFaIiwibGFzdElkIjoiYyJ9'' = Some example_payload"
proof -
  have buf: "hasBuffer reference_platform" "\<not> hasBuffer browser_platform"
    by (simp_all add: reference_platform_def browser_platform_def)
  have enc: "encodeSyncToken reference_platform example_payload = Some ''eyJsYXN0VXBkYXRlZEF0IjoiMjAyNS0wMS0wMVQwMDowMDowMC4wMDFaIiwibGFzdElkIjoiYyJ9''"
    "encodeSyncToken browser_platform example_payload = Some ''eyJsYXN0VXBkYXRlZEF0IjoiMjAyNS0wMS0wMVQwMDowMDowMC4wMDFaIiwibGFzdElkIjoiYyJ9''"
    by code_simp+
  from buf(1) reference_buffer_lossless
  have "if hasBuffer reference_platform then buffer_lossless reference_platform
        else binary_lossless reference_platform"
    by simp
  from sync_token_roundtrip [OF reference_json_lossless this, of example_payload] enc(1)
  have dec: "decodeSyncToken reference_platform ''eyJsYXN0VXBkYXRlZEF0IjoiMjAyNS0wMS0wMVQwMDowMDowMC4wMDFaIiwibGFzdElkIjoiYyJ9'' = Some example_payload"
    by blast
  from buf(2) browser_binary_lossless
  have "if hasBuffer browser_platform then buffer_lossless browser_platform
        else binary_lossless browser_platform"
    by simp
  from sync_token_roundtrip [OF browser_json_lossless this, of example_payload] enc(2)
  have dec': "decodeSyncToken browser_platform ''eyJsYXN0VXBkYXRlZEF0IjoiMjAyNS0wMS0wMVQwMDowMDowMC4wMDFaIiwibGFzdElkIjoiYyJ9'' = Some example_payload"
    by blast
  from reference_json_lossless buf(1) reference_buffer_lossless enc(1) dec buf(2) enc(2) dec'
  show ?thesis
    by (intro conjI)
qed

end
